theory Spec2Isabelle
  imports Main
begin

section \<open>JavaScript strings\<close>

text \<open>
  The program under study is \<^verbatim>\<open>streamAIResponse\<close>, the function of the external AI chat
  example that reads a streamed chat completion and forwards its content to the chat
  response stream. It works on JavaScript strings, which are sequences of UTF-16 code
  units; a code unit is modelled by its number.
\<close>

type_synonym code_unit = nat
type_synonym jsstring = "code_unit list"

definition js :: "string \<Rightarrow> jsstring" where
  \<comment> \<open>the JavaScript string of an ASCII or Latin-1 literal\<close>
  "js s = map of_char s"

definition is_whitespace :: "code_unit \<Rightarrow> bool" where
  \<comment> \<open>ECMAScript WhiteSpace and LineTerminator, the code units that \<^verbatim>\<open>trim\<close> removes\<close>
  "is_whitespace c \<longleftrightarrow>
     c = 9 \<or> c = 10 \<or> c = 11 \<or> c = 12 \<or> c = 13 \<or> c = 32 \<or> c = 160 \<or> c = 5760 \<or>
     (8192 \<le> c \<and> c \<le> 8202) \<or> c = 8232 \<or> c = 8233 \<or> c = 8239 \<or> c = 8287 \<or>
     c = 12288 \<or> c = 65279"

definition trim :: "jsstring \<Rightarrow> jsstring" where
  \<comment> \<open>\<^verbatim>\<open>String.prototype.trim\<close>\<close>
  "trim s = rev (dropWhile is_whitespace (rev (dropWhile is_whitespace s)))"

fun js_split :: "code_unit \<Rightarrow> jsstring \<Rightarrow> jsstring list" where
  \<comment> \<open>\<^verbatim>\<open>String.prototype.split\<close> with a separator of one code unit: the empty string
      splits into one empty piece, a trailing separator leaves an empty last piece\<close>
  "js_split sep [] = [[]]"
| "js_split sep (c # cs) =
     (if c = sep then [] # js_split sep cs
      else (case js_split sep cs of
              [] \<Rightarrow> [[c]]
            | l # ls \<Rightarrow> (c # l) # ls))"

definition startsWith :: "jsstring \<Rightarrow> jsstring \<Rightarrow> bool" where
  \<comment> \<open>\<^verbatim>\<open>s.startsWith(p)\<close>\<close>
  "startsWith s p \<longleftrightarrow> take (length p) s = p"

definition slice :: "jsstring \<Rightarrow> nat \<Rightarrow> jsstring" where
  \<comment> \<open>\<^verbatim>\<open>s.slice(n)\<close> for a start index \<open>n \<ge> 0\<close>\<close>
  "slice s n = drop n s"

function show_nat :: "nat \<Rightarrow> jsstring" where
  \<comment> \<open>the decimal digits of a non-negative integer, as a template literal prints it\<close>
  "show_nat n = (if n < 10 then [48 + n] else show_nat (n div 10) @ [48 + n mod 10])"
  by pat_completeness auto
termination
  by (relation "measure id") auto

declare show_nat.simps [simp del]

section \<open>JSON values and property access\<close>

text \<open>
  A parsed JSON text. A number is kept as the value its literal denotes, mantissa and
  decimal exponent (\<open>JNumber m e\<close> is \<open>m * 10 ^ e\<close>); an object keeps its members in the
  order of the text, duplicates included, and a later member overrides an earlier one
  of the same name.
\<close>

datatype json =
    JNull
  | JBool bool
  | JNumber int int
  | JString jsstring
  | JArray "json list"
  | JObject "(jsstring \<times> json) list"

text \<open>
  \<^verbatim>\<open>JSON.parse\<close> is a built-in of the language, not code of the program. The decoder
  is therefore modelled for an arbitrary parser; \<open>None\<close> is the \<^verbatim>\<open>SyntaxError\<close> that
  \<^verbatim>\<open>JSON.parse\<close> throws on a text that is not JSON.
\<close>

type_synonym parser = "jsstring \<Rightarrow> json option"

datatype prop_key = Name jsstring | Index nat

definition rounds_to_zero :: "int \<Rightarrow> int \<Rightarrow> bool" where
  \<comment> \<open>the Number of the literal \<open>m * 10 ^ e\<close> is \<open>+0\<close> or \<open>-0\<close>: the value is at most
      \<open>2 ^ -1075\<close> in magnitude, half the least positive double, and rounds to zero\<close>
  "rounds_to_zero m e \<longleftrightarrow>
     (if 0 \<le> e then m = 0 else \<bar>m\<bar> * 2 ^ 1075 \<le> 10 ^ nat (- e))"

fun get_prop :: "json \<Rightarrow> prop_key \<Rightarrow> json option" where
  \<comment> \<open>\<^verbatim>\<open>v[k]\<close> for a value \<open>v\<close> that is neither \<^verbatim>\<open>null\<close> nor \<^verbatim>\<open>undefined\<close>; \<open>None\<close> is
      \<^verbatim>\<open>undefined\<close>. A \<open>Name\<close> is a property name that is neither an array index nor a
      built-in property: the program reads \<^verbatim>\<open>choices\<close>, \<^verbatim>\<open>delta\<close> and \<^verbatim>\<open>content\<close>.\<close>
  "get_prop (JObject ms) (Name k) = map_of (rev ms) k"
| "get_prop (JObject ms) (Index n) = map_of (rev ms) (show_nat n)"
| "get_prop (JArray xs) (Index n) = (if n < length xs then Some (xs ! n) else None)"
| "get_prop (JString s) (Index n) = (if n < length s then Some (JString [s ! n]) else None)"
| "get_prop _ _ = None"

fun opt_get :: "json option \<Rightarrow> prop_key \<Rightarrow> json option" where
  \<comment> \<open>the optional chain \<^verbatim>\<open>v?.[k]\<close>: \<^verbatim>\<open>undefined\<close> when \<open>v\<close> is \<^verbatim>\<open>null\<close> or \<^verbatim>\<open>undefined\<close>\<close>
  "opt_get None k = None"
| "opt_get (Some JNull) k = None"
| "opt_get (Some v) k = get_prop v k"

datatype frame_error = TypeError

definition delta_content :: "json \<Rightarrow> frame_error + json option" where
  \<comment> \<open>\<^verbatim>\<open>parsed.choices?.[0]?.delta?.content\<close>: the first access is not optional and throws
      on \<^verbatim>\<open>null\<close>\<close>
  "delta_content parsed =
     (if parsed = JNull then Inl TypeError
      else Inr (opt_get (opt_get (opt_get (get_prop parsed (Name (js ''choices''))) (Index 0))
                  (Name (js ''delta''))) (Name (js ''content''))))"

fun truthy :: "json \<Rightarrow> bool" where
  \<comment> \<open>ToBoolean of a parsed value, as \<^verbatim>\<open>if (content)\<close> applies it; \<^verbatim>\<open>undefined\<close> is falsy\<close>
  "truthy JNull = False"
| "truthy (JBool b) = b"
| "truthy (JNumber m e) = (\<not> rounds_to_zero m e)"
| "truthy (JString s) = (s \<noteq> [])"
| "truthy (JArray xs) = True"
| "truthy (JObject ms) = True"

section \<open>A JSON parser\<close>

text \<open>
  A parser for the JSON grammar (ECMA-404), which is the grammar \<^verbatim>\<open>JSON.parse\<close> accepts,
  to run the decoder on concrete streams: a lexer, then a parser of the token sequence
  that keeps the open arrays and objects on a stack.
\<close>

datatype json_token =
    TLBrace | TRBrace | TLBrack | TRBrack | TColon | TComma
  | TScalar json

definition is_json_ws :: "code_unit \<Rightarrow> bool" where
  "is_json_ws c \<longleftrightarrow> c = 32 \<or> c = 9 \<or> c = 10 \<or> c = 13"

definition is_digit :: "code_unit \<Rightarrow> bool" where
  "is_digit c \<longleftrightarrow> 48 \<le> c \<and> c \<le> 57"

definition hex_value :: "code_unit \<Rightarrow> nat option" where
  "hex_value c =
     (if 48 \<le> c \<and> c \<le> 57 then Some (c - 48)
      else if 65 \<le> c \<and> c \<le> 70 then Some (c - 55)
      else if 97 \<le> c \<and> c \<le> 102 then Some (c - 87)
      else None)"

definition hex4 :: "code_unit \<Rightarrow> code_unit \<Rightarrow> code_unit \<Rightarrow> code_unit \<Rightarrow> code_unit option" where
  "hex4 a b c d =
     (case (hex_value a, hex_value b, hex_value c, hex_value d) of
        (Some p, Some q, Some r, Some s) \<Rightarrow> Some (((p * 16 + q) * 16 + r) * 16 + s)
      | _ \<Rightarrow> None)"

definition unescape :: "code_unit \<Rightarrow> code_unit option" where
  \<comment> \<open>the code unit of a two-character escape, by the character after the backslash\<close>
  "unescape c =
     (if c = 34 \<or> c = 92 \<or> c = 47 then Some c
      else if c = 98 then Some 8
      else if c = 102 then Some 12
      else if c = 110 then Some 10
      else if c = 114 then Some 13
      else if c = 116 then Some 9
      else None)"

fun lex_string :: "jsstring \<Rightarrow> (jsstring \<times> jsstring) option" where
  \<comment> \<open>the text after an opening quote: the string's value and what follows its closing quote\<close>
  "lex_string [] = None"
| "lex_string (c # cs) =
     (if c = 34 then Some ([], cs)
      else if c = 92 then
        (case cs of
           [] \<Rightarrow> None
         | e # cs' \<Rightarrow>
             if e = 117 then
               (case cs' of
                  h1 # h2 # h3 # h4 # cs'' \<Rightarrow>
                    (case hex4 h1 h2 h3 h4 of
                       None \<Rightarrow> None
                     | Some u \<Rightarrow> map_option (\<lambda>(s, rest). (u # s, rest)) (lex_string cs''))
                | _ \<Rightarrow> None)
             else
               (case unescape e of
                  None \<Rightarrow> None
                | Some u \<Rightarrow> map_option (\<lambda>(s, rest). (u # s, rest)) (lex_string cs')))
      else if c < 32 then None
      else map_option (\<lambda>(s, rest). (c # s, rest)) (lex_string cs))"

definition digits_value :: "jsstring \<Rightarrow> int" where
  "digits_value ds = foldl (\<lambda>acc d. acc * 10 + (int d - 48)) 0 ds"

definition lex_digits :: "jsstring \<Rightarrow> (jsstring \<times> jsstring) option" where
  \<comment> \<open>one digit or more, and what follows them\<close>
  "lex_digits s =
     (if takeWhile is_digit s = [] then None
      else Some (takeWhile is_digit s, dropWhile is_digit s))"

definition lex_int :: "jsstring \<Rightarrow> (jsstring \<times> jsstring) option" where
  \<comment> \<open>the integer part: \<open>0\<close>, or digits that do not start with \<open>0\<close>\<close>
  "lex_int s =
     (case lex_digits s of
        None \<Rightarrow> None
      | Some (ds, rest) \<Rightarrow> if hd ds = 48 \<and> 1 < length ds then None else Some (ds, rest))"

definition lex_frac :: "jsstring \<Rightarrow> (jsstring \<times> jsstring) option" where
  \<comment> \<open>the optional fraction: a point and its digits\<close>
  "lex_frac s =
     (case s of
        [] \<Rightarrow> Some ([], s)
      | c # cs \<Rightarrow> if c = 46 then lex_digits cs else Some ([], s))"

definition lex_exp :: "jsstring \<Rightarrow> (int \<times> jsstring) option" where
  \<comment> \<open>the optional exponent: \<open>e\<close> or \<open>E\<close>, an optional sign and digits\<close>
  "lex_exp s =
     (case s of
        [] \<Rightarrow> Some (0, s)
      | c # cs \<Rightarrow>
          if c = 101 \<or> c = 69 then
            (case cs of
               [] \<Rightarrow> None
             | d # ds \<Rightarrow>
                 if d = 45 then map_option (\<lambda>(x, rest). (- digits_value x, rest)) (lex_digits ds)
                 else if d = 43 then map_option (\<lambda>(x, rest). (digits_value x, rest)) (lex_digits ds)
                 else map_option (\<lambda>(x, rest). (digits_value x, rest)) (lex_digits cs))
          else Some (0, s))"

definition lex_unsigned :: "jsstring \<Rightarrow> ((int \<times> int) \<times> jsstring) option" where
  "lex_unsigned s =
     (case lex_int s of
        None \<Rightarrow> None
      | Some (ip, s2) \<Rightarrow>
          (case lex_frac s2 of
             None \<Rightarrow> None
           | Some (fp, s3) \<Rightarrow>
               (case lex_exp s3 of
                  None \<Rightarrow> None
                | Some (x, s4) \<Rightarrow> Some ((digits_value (ip @ fp), x - int (length fp)), s4))))"

definition lex_number :: "jsstring \<Rightarrow> ((int \<times> int) \<times> jsstring) option" where
  \<comment> \<open>a number literal at the head of the text, as mantissa and decimal exponent\<close>
  "lex_number s =
     (case s of
        [] \<Rightarrow> None
      | c # cs \<Rightarrow>
          if c = 45 then map_option (\<lambda>((m, e), rest). ((- m, e), rest)) (lex_unsigned cs)
          else lex_unsigned s)"

lemma lex_string_shorter: "lex_string s = Some (v, rest) \<Longrightarrow> length rest < length s"
proof (induction s arbitrary: v rest rule: lex_string.induct)
  case 1
  then show ?case by simp
next
  case (2 c cs)
  then show ?case
    by (auto split: if_splits list.splits option.splits) fastforce+
qed

lemma lex_digits_shorter: "lex_digits s = Some (ds, rest) \<Longrightarrow> length rest < length s"
  by (cases s) (auto simp: lex_digits_def le_imp_less_Suc length_dropWhile_le split: if_splits)

lemma lex_frac_shorter: "lex_frac s = Some (ds, rest) \<Longrightarrow> length rest \<le> length s"
  by (cases s) (auto simp: lex_frac_def split: if_splits dest!: lex_digits_shorter)

lemma lex_exp_shorter: "lex_exp s = Some (x, rest) \<Longrightarrow> length rest \<le> length s"
  by (cases s) (auto simp: lex_exp_def split: if_splits list.splits dest!: lex_digits_shorter)

lemma lex_unsigned_shorter: "lex_unsigned s = Some (n, rest) \<Longrightarrow> length rest < length s"
  by (auto simp: lex_unsigned_def lex_int_def split: option.splits if_splits
      dest!: lex_digits_shorter lex_frac_shorter lex_exp_shorter)

lemma lex_number_shorter: "lex_number s = Some (n, rest) \<Longrightarrow> length rest < length s"
  by (cases s) (auto simp: lex_number_def split: if_splits dest!: lex_unsigned_shorter)

function lex_json :: "jsstring \<Rightarrow> json_token list option" where
  "lex_json [] = Some []"
| "lex_json (c # cs) =
     (if is_json_ws c then lex_json cs
      else if c = 123 then map_option ((#) TLBrace) (lex_json cs)
      else if c = 125 then map_option ((#) TRBrace) (lex_json cs)
      else if c = 91 then map_option ((#) TLBrack) (lex_json cs)
      else if c = 93 then map_option ((#) TRBrack) (lex_json cs)
      else if c = 58 then map_option ((#) TColon) (lex_json cs)
      else if c = 44 then map_option ((#) TComma) (lex_json cs)
      else if c = 34 then
        (case lex_string cs of
           None \<Rightarrow> None
         | Some (s, rest) \<Rightarrow> map_option ((#) (TScalar (JString s))) (lex_json rest))
      else if c = 45 \<or> is_digit c then
        (case lex_number (c # cs) of
           None \<Rightarrow> None
         | Some ((m, e), rest) \<Rightarrow> map_option ((#) (TScalar (JNumber m e))) (lex_json rest))
      else if startsWith (c # cs) (js ''true'') then
        map_option ((#) (TScalar (JBool True))) (lex_json (drop 3 cs))
      else if startsWith (c # cs) (js ''false'') then
        map_option ((#) (TScalar (JBool False))) (lex_json (drop 4 cs))
      else if startsWith (c # cs) (js ''null'') then
        map_option ((#) (TScalar JNull)) (lex_json (drop 3 cs))
      else None)"
  by pat_completeness auto
termination
  by (relation "measure length")
     (auto dest: lex_string_shorter lex_number_shorter intro: le_imp_less_Suc)

datatype frame =
    FArr "json list"
  | FObj "(jsstring \<times> json) list" jsstring

datatype mode =
    MValue
  | MFirst
  | MKeyFirst
  | MKey "(jsstring \<times> json) list"
  | MColon "(jsstring \<times> json) list" jsstring
  | MDone json

text \<open>
  \<open>FArr xs\<close> is an open array with the elements read so far, \<open>FObj ms k\<close> an open object
  with the members read so far and the name whose value is being read, both lists latest
  first. The modes say what may come next: a value; a value or \<open>]\<close> right after \<open>[\<close>; a name
  or \<open>}\<close> right after \<open>{\<close>; a name after a comma; the colon after a name; and, after a
  complete value, a comma or the closing bracket of the enclosing array or object.
\<close>

definition value_start :: "frame list \<Rightarrow> json_token \<Rightarrow> (mode \<times> frame list) option" where
  \<comment> \<open>the first token of a value\<close>
  "value_start st t =
     (case t of
        TScalar v \<Rightarrow> Some (MDone v, st)
      | TLBrack \<Rightarrow> Some (MFirst, FArr [] # st)
      | TLBrace \<Rightarrow> Some (MKeyFirst, st)
      | _ \<Rightarrow> None)"

definition key_start :: "(jsstring \<times> json) list \<Rightarrow> frame list \<Rightarrow> json_token \<Rightarrow> (mode \<times> frame list) option" where
  \<comment> \<open>a member's name\<close>
  "key_start ms st t =
     (case t of
        TScalar (JString k) \<Rightarrow> Some (MColon ms k, st)
      | _ \<Rightarrow> None)"

definition value_done :: "json \<Rightarrow> frame list \<Rightarrow> json_token \<Rightarrow> (mode \<times> frame list) option" where
  \<comment> \<open>the token after a complete value, inside the innermost open array or object\<close>
  "value_done v st t =
     (case st of
        [] \<Rightarrow> None
      | FArr xs # st' \<Rightarrow>
          (case t of
             TComma \<Rightarrow> Some (MValue, FArr (v # xs) # st')
           | TRBrack \<Rightarrow> Some (MDone (JArray (rev (v # xs))), st')
           | _ \<Rightarrow> None)
      | FObj ms k # st' \<Rightarrow>
          (case t of
             TComma \<Rightarrow> Some (MKey ((k, v) # ms), st')
           | TRBrace \<Rightarrow> Some (MDone (JObject (rev ((k, v) # ms))), st')
           | _ \<Rightarrow> None))"

fun parse_step :: "mode \<Rightarrow> frame list \<Rightarrow> json_token \<Rightarrow> (mode \<times> frame list) option" where
  "parse_step MValue st t = value_start st t"
| "parse_step MFirst st t =
     (if t = TRBrack then (case st of FArr xs # st' \<Rightarrow> Some (MDone (JArray []), st') | _ \<Rightarrow> None)
      else value_start st t)"
| "parse_step MKeyFirst st t = (if t = TRBrace then Some (MDone (JObject []), st) else key_start [] st t)"
| "parse_step (MKey ms) st t = key_start ms st t"
| "parse_step (MColon ms k) st t = (if t = TColon then Some (MValue, FObj ms k # st) else None)"
| "parse_step (MDone v) st t = value_done v st t"

fun parse_tokens :: "mode \<Rightarrow> frame list \<Rightarrow> json_token list \<Rightarrow> json option" where
  "parse_tokens m st [] = (case m of MDone v \<Rightarrow> (if st = [] then Some v else None) | _ \<Rightarrow> None)"
| "parse_tokens m st (t # ts) =
     (case parse_step m st t of
        None \<Rightarrow> None
      | Some (m', st') \<Rightarrow> parse_tokens m' st' ts)"

definition JSON_parse :: parser where
  "JSON_parse text = (case lex_json text of None \<Rightarrow> None | Some ts \<Rightarrow> parse_tokens MValue [] ts)"

section \<open>Decoding a chunk\<close>

text \<open>
  Every chunk is decoded by a decoder of its own, \<^verbatim>\<open>new TextDecoder().decode(value)\<close>: UTF-8,
  where a malformed or unfinished sequence gives U+FFFD, a byte order mark at the head of
  the chunk is dropped, and the code points are written as UTF-16 code units. The decoder
  is the one of the Encoding standard: it holds the number of bytes the current sequence
  needs, the number seen, the code point so far and the bounds of the next byte.
\<close>

type_synonym byte = nat

definition bytes :: "string \<Rightarrow> byte list" where
  \<comment> \<open>the bytes of an ASCII literal\<close>
  "bytes s = map of_char s"

datatype dstate = DState (needed: nat) (seen: nat) (code_point: nat) (lower: nat) (upper: nat)

definition dstate0 :: dstate where
  "dstate0 = DState 0 0 0 128 191"

definition utf8_lead :: "byte \<Rightarrow> nat list \<times> dstate" where
  \<comment> \<open>a byte that is met when no sequence is open\<close>
  "utf8_lead b =
     (if b \<le> 127 then ([b], dstate0)
      else if 194 \<le> b \<and> b \<le> 223 then ([], DState 1 0 (b mod 32) 128 191)
      else if 224 \<le> b \<and> b \<le> 239 then
        ([], DState 2 0 (b mod 16) (if b = 224 then 160 else 128) (if b = 237 then 159 else 191))
      else if 240 \<le> b \<and> b \<le> 244 then
        ([], DState 3 0 (b mod 8) (if b = 240 then 144 else 128) (if b = 244 then 143 else 191))
      else ([65533], dstate0))"

definition utf8_step :: "dstate \<Rightarrow> byte \<Rightarrow> nat list \<times> dstate" where
  \<comment> \<open>one byte: the code points it completes and the next state; a byte out of bounds
      ends the open sequence with U+FFFD and is then read again as a first byte\<close>
  "utf8_step st b =
     (if needed st = 0 then utf8_lead b
      else if b < lower st \<or> upper st < b then (65533 # fst (utf8_lead b), snd (utf8_lead b))
      else if Suc (seen st) = needed st then ([code_point st * 64 + b mod 64], dstate0)
      else ([], DState (needed st) (Suc (seen st)) (code_point st * 64 + b mod 64) 128 191))"

fun utf8_run :: "dstate \<Rightarrow> byte list \<Rightarrow> nat list" where
  \<comment> \<open>at the end of the chunk an open sequence gives U+FFFD\<close>
  "utf8_run st [] = (if needed st = 0 then [] else [65533])"
| "utf8_run st (b # bs) = (case utf8_step st b of (out, st') \<Rightarrow> out @ utf8_run st' bs)"

definition utf8_decode :: "byte list \<Rightarrow> nat list" where
  "utf8_decode v = utf8_run dstate0 v"

definition drop_BOM :: "nat list \<Rightarrow> nat list" where
  \<comment> \<open>the first code point is left out when it is U+FEFF\<close>
  "drop_BOM cps = (case cps of [] \<Rightarrow> [] | c # rest \<Rightarrow> if c = 65279 then rest else cps)"

definition utf16_units :: "nat \<Rightarrow> jsstring" where
  \<comment> \<open>a code point above U+FFFF is a pair of surrogates\<close>
  "utf16_units cp =
     (if cp < 65536 then [cp]
      else [55296 + (cp - 65536) div 1024, 56320 + (cp - 65536) mod 1024])"

definition utf16 :: "nat list \<Rightarrow> jsstring" where
  "utf16 cps = concat (map utf16_units cps)"

definition TextDecoder_decode :: "byte list \<Rightarrow> jsstring" where
  "TextDecoder_decode v = utf16 (drop_BOM (utf8_decode v))"

definition has_BOM :: "byte list \<Rightarrow> bool" where
  \<comment> \<open>the chunk begins with the three bytes of a UTF-8 byte order mark\<close>
  "has_BOM v \<longleftrightarrow> take 3 v = [239, 187, 191]"

section \<open>The stream decoder\<close>

text \<open>
  What the function does to the outside: \<open>sink\<close> lists the arguments of the calls of
  \<^verbatim>\<open>stream.markdown\<close>, in order; \<open>warnings\<close> counts the calls of \<^verbatim>\<open>console.warn\<close>;
  \<open>reads\<close> counts the calls of \<^verbatim>\<open>reader.read()\<close>; \<open>released\<close> tells whether
  \<^verbatim>\<open>reader.releaseLock()\<close> has run. The calls of the host (\<^verbatim>\<open>stream.markdown\<close>,
  \<^verbatim>\<open>console.warn\<close>, \<^verbatim>\<open>releaseLock\<close>) are taken not to throw. The request that the
  function builds is not part of the model, which starts at the answer of \<^verbatim>\<open>fetch\<close>.
\<close>

record state =
  sink :: "json list"
  warnings :: nat
  reads :: nat
  released :: bool

definition initial :: state where
  "initial = \<lparr>sink = [], warnings = 0, reads = 0, released = False\<rparr>"

definition markdown :: "json \<Rightarrow> state \<Rightarrow> state" where
  "markdown v st = st\<lparr>sink := sink st @ [v]\<rparr>"

definition warn :: "state \<Rightarrow> state" where
  "warn st = st\<lparr>warnings := Suc (warnings st)\<rparr>"

definition chunk_lines :: "jsstring \<Rightarrow> jsstring list" where
  \<comment> \<open>\<^verbatim>\<open>chunk.split('\n').filter(line => line.trim())\<close>: a line is kept when its trimmed
      text is a non-empty string\<close>
  "chunk_lines chunk = filter (\<lambda>line. trim line \<noteq> []) (js_split 10 chunk)"

definition process_data :: "parser \<Rightarrow> jsstring \<Rightarrow> state \<Rightarrow> state" where
  \<comment> \<open>the inner \<^verbatim>\<open>try\<close> block with its \<^verbatim>\<open>catch\<close>, which only warns\<close>
  "process_data parse data st =
     (case parse data of
        None \<Rightarrow> warn st
      | Some parsed \<Rightarrow>
          (case delta_content parsed of
             Inl err \<Rightarrow> warn st
           | Inr None \<Rightarrow> st
           | Inr (Some content) \<Rightarrow>
               if truthy content then markdown content st else st))"

datatype flow = Continue | Return

definition process_line :: "parser \<Rightarrow> jsstring \<Rightarrow> state \<Rightarrow> flow \<times> state" where
  \<comment> \<open>one turn of the \<^verbatim>\<open>for\<close> loop; \<open>Return\<close> is the \<^verbatim>\<open>return\<close> at the sentinel\<close>
  "process_line parse line st =
     (if startsWith line (js ''data: '') then
        (let data = slice line 6 in
         if data = js ''[DONE]'' then (Return, st)
         else (Continue, process_data parse data st))
      else (Continue, st))"

fun process_lines :: "parser \<Rightarrow> jsstring list \<Rightarrow> state \<Rightarrow> flow \<times> state" where
  "process_lines parse [] st = (Continue, st)"
| "process_lines parse (line # rest) st =
     (case process_line parse line st of
        (Return, st') \<Rightarrow> (Return, st')
      | (Continue, st') \<Rightarrow> process_lines parse rest st')"

text \<open>
  The response body is what the successive calls of \<^verbatim>\<open>reader.read()\<close> give: a chunk
  of bytes or a rejection with the error's message; after the last element every read
  answers \<^verbatim>\<open>done\<close>.
  The cancellation token is the value of \<^verbatim>\<open>token.isCancellationRequested\<close> at each
  evaluation of the loop condition, the first being number 0; the program reads the token
  nowhere else.
\<close>

datatype read_result = Chunk "byte list" | Failure jsstring

datatype error = Error jsstring

type_synonym token = "nat \<Rightarrow> bool"

definition never_cancelled :: token where
  \<comment> \<open>cancellation is never requested\<close>
  "never_cancelled i \<longleftrightarrow> False"

definition cancelled_from :: "nat \<Rightarrow> token" where
  \<comment> \<open>cancellation is signaled while read number \<open>k - 1\<close> is pending, the only point
      between check \<open>k - 1\<close> and check \<open>k\<close> at which the function is suspended (for \<open>k = 0\<close>:
      before the first check), and stays signaled\<close>
  "cancelled_from k i \<longleftrightarrow> k \<le> i"

fun read_loop :: "parser \<Rightarrow> token \<Rightarrow> nat \<Rightarrow> read_result list \<Rightarrow> state \<Rightarrow> (error + unit) \<times> state" where
  "read_loop parse token i [] st =
     (if token i then (Inr (), st)
      else (Inr (), st\<lparr>reads := Suc (reads st)\<rparr>))"
| "read_loop parse token i (Failure msg # rest) st =
     (if token i then (Inr (), st)
      else (Inl (Error msg), st\<lparr>reads := Suc (reads st)\<rparr>))"
| "read_loop parse token i (Chunk chunk # rest) st =
     (if token i then (Inr (), st)
      else (case process_lines parse (chunk_lines (TextDecoder_decode chunk))
                   (st\<lparr>reads := Suc (reads st)\<rparr>) of
              (Return, st') \<Rightarrow> (Inr (), st')
            | (Continue, st') \<Rightarrow> read_loop parse token (Suc i) rest st'))"

record response =
  ok :: bool
  status :: nat
  statusText :: jsstring
  body :: "read_result list option"

datatype fetch_result = Rejected jsstring | Resolved response

definition stream_try :: "parser \<Rightarrow> token \<Rightarrow> fetch_result \<Rightarrow> state \<Rightarrow> (error + unit) \<times> state" where
  \<comment> \<open>the body of the outer \<^verbatim>\<open>try\<close>, from the answer of \<^verbatim>\<open>fetch\<close> on; the inner
      \<^verbatim>\<open>finally\<close> releases the reader on every way out of the loop\<close>
  "stream_try parse token fetched st =
     (case fetched of
        Rejected msg \<Rightarrow> (Inl (Error msg), st)
      | Resolved response \<Rightarrow>
          if \<not> ok response then
            (Inl (Error (js ''AI service returned '' @ show_nat (status response) @ js '': ''
                         @ statusText response)), st)
          else
            (case body response of
               None \<Rightarrow> (Inl (Error (js ''No response stream available'')), st)
             | Some reader \<Rightarrow>
                 (case read_loop parse token 0 reader st of
                    (res, st') \<Rightarrow> (res, st'\<lparr>released := True\<rparr>))))"

definition streamAIResponse :: "parser \<Rightarrow> token \<Rightarrow> fetch_result \<Rightarrow> (error + unit) \<times> state" where
  \<comment> \<open>the outer \<^verbatim>\<open>catch\<close> turns every error into one more call of \<^verbatim>\<open>stream.markdown\<close>\<close>
  "streamAIResponse parse token fetched =
     (case stream_try parse token fetched initial of
        (Inl (Error msg), st) \<Rightarrow>
          (Inr (), markdown (JString (js ''Failed to get response from AI service: '' @ msg)) st)
      | (Inr u, st) \<Rightarrow> (Inr u, st))"

section \<open>Notions used in the statements\<close>



definition same_output :: "state \<Rightarrow> state \<Rightarrow> bool" where
  \<comment> \<open>two states that differ at most in the number of warnings logged\<close>
  "same_output s t \<longleftrightarrow> sink s = sink t \<and> reads s = reads t \<and> released s = released t"

definition dstate_ok :: "dstate \<Rightarrow> bool" where
  \<comment> \<open>an open sequence expects a continuation byte, never an ASCII byte\<close>
  "dstate_ok st \<longleftrightarrow> needed st = 0 \<or> 128 \<le> lower st"

lemmas decoder_eval =
  js_def chunk_lines_def trim_def is_whitespace_def startsWith_def slice_def
  process_line_def process_data_def delta_content_def markdown_def warn_def
  stream_try_def streamAIResponse_def initial_def never_cancelled_def
  JSON_parse_def is_json_ws_def is_digit_def value_start_def key_start_def value_done_def
  unescape_def hex_value_def hex4_def digits_value_def
  lex_digits_def lex_int_def lex_frac_def lex_exp_def lex_unsigned_def lex_number_def
  bytes_def dstate0_def utf8_lead_def utf8_step_def utf8_decode_def drop_BOM_def
  utf16_units_def utf16_def TextDecoder_decode_def

section \<open>The decoder at a line feed\<close>

lemma dstate_ok_step: "dstate_ok (snd (utf8_step st b))"
  by (simp add: utf8_step_def utf8_lead_def dstate_ok_def dstate0_def)

lemma dstate_ok0: "dstate_ok dstate0"
  by (simp add: dstate_ok_def dstate0_def)

lemma utf8_step_ascii:
  assumes "dstate_ok st" and "b \<le> 127"
  shows "utf8_step st b = ((if needed st = 0 then [] else [65533]) @ [b], dstate0)"
  using assms by (auto simp: utf8_step_def utf8_lead_def dstate_ok_def)

lemma utf8_run_line_feed:
  assumes "dstate_ok st"
  shows "utf8_run st (a @ 10 # c) = utf8_run st a @ 10 # utf8_run dstate0 c"
  using assms
proof (induction a arbitrary: st)
  case Nil
  then show ?case by (simp add: utf8_step_ascii)
next
  case (Cons x a)
  obtain out st' where s: "utf8_step st x = (out, st')"
    by (cases "utf8_step st x")
  with dstate_ok_step [of st x] have "dstate_ok st'" by simp
  with s Cons.IH [of st'] show ?case by simp
qed

lemma utf8_decode_line_feed:
  "utf8_decode (a @ 10 # c) = utf8_decode a @ 10 # utf8_decode c"
  by (simp add: utf8_decode_def utf8_run_line_feed dstate_ok0)

lemma utf8_run_open: "needed st \<noteq> 0 \<Longrightarrow> utf8_run st v \<noteq> []"
proof (induction v arbitrary: st)
  case Nil
  then show ?case by simp
next
  case (Cons b v)
  show ?case
  proof (cases "fst (utf8_step st b) = []")
    case False
    then show ?thesis by (auto split: prod.splits)
  next
    case True
    with Cons.prems have "needed (snd (utf8_step st b)) \<noteq> 0"
      by (auto simp: utf8_step_def split: if_splits)
    from Cons.IH [OF this] show ?thesis by (auto split: prod.splits)
  qed
qed

lemma utf8_decode_not_Nil: "v \<noteq> [] \<Longrightarrow> utf8_decode v \<noteq> []"
proof (cases v)
  case Nil
  then show "v \<noteq> [] \<Longrightarrow> utf8_decode v \<noteq> []" by simp
next
  case (Cons b v')
  show "v \<noteq> [] \<Longrightarrow> utf8_decode v \<noteq> []"
  proof (cases "fst (utf8_step dstate0 b) = []")
    case False
    with Cons show ?thesis by (auto simp: utf8_decode_def split: prod.splits)
  next
    case True
    then have "needed (snd (utf8_step dstate0 b)) \<noteq> 0"
      by (auto simp: utf8_step_def utf8_lead_def dstate0_def split: if_splits)
    from utf8_run_open [OF this, of v'] Cons show ?thesis
      by (auto simp: utf8_decode_def split: prod.splits)
  qed
qed

lemma utf16_append: "utf16 (xs @ ys) = utf16 xs @ utf16 ys"
  by (simp add: utf16_def)

lemma utf16_line_feed: "utf16 (10 # xs) = 10 # utf16 xs"
  by (simp add: utf16_def utf16_units_def)

lemma drop_BOM_append: "xs \<noteq> [] \<Longrightarrow> drop_BOM (xs @ ys) = drop_BOM xs @ ys"
  by (cases xs) (simp_all add: drop_BOM_def)

lemma TextDecoder_decode_Nil: "TextDecoder_decode [] = []"
  by (simp add: TextDecoder_decode_def utf8_decode_def drop_BOM_def utf16_def dstate0_def)

lemma TextDecoder_decode_line_feed:
  "TextDecoder_decode (a @ 10 # c) = TextDecoder_decode a @ 10 # utf16 (utf8_decode c)"
proof (cases "a = []")
  case True
  then show ?thesis
    using utf8_decode_line_feed [of "[]" c]
    by (simp add: TextDecoder_decode_Nil)
       (simp add: TextDecoder_decode_def drop_BOM_def utf16_line_feed utf8_decode_def dstate0_def)
next
  case False
  then have "utf8_decode a \<noteq> []" by (rule utf8_decode_not_Nil)
  then show ?thesis
    by (simp add: TextDecoder_decode_def utf8_decode_line_feed drop_BOM_append utf16_append
        utf16_line_feed)
qed

lemma TextDecoder_decode_ends_line_feed:
  "TextDecoder_decode (a @ [10]) = TextDecoder_decode a @ [10]"
  using TextDecoder_decode_line_feed [of a "[]"]
  by (simp add: utf8_decode_def utf16_def dstate0_def)

lemma mask64: "128 \<le> b \<Longrightarrow> b \<le> 191 \<Longrightarrow> b mod 64 = b - (128::nat)"
proof -
  assume a: "128 \<le> b" "b \<le> 191"
  then have "b = (b - 128) + 2 * 64" by simp
  then have "b mod 64 = ((b - 128) + 2 * 64) mod 64" by simp
  also have "\<dots> = (b - 128) mod 64" by (rule mod_mult_self1)
  also from a have "\<dots> = b - 128" by simp
  finally show ?thesis .
qed

lemma mask16: "224 \<le> b \<Longrightarrow> b \<le> 239 \<Longrightarrow> b mod 16 = b - (224::nat)"
proof -
  assume a: "224 \<le> b" "b \<le> 239"
  then have "b = (b - 224) + 14 * 16" by simp
  then have "b mod 16 = ((b - 224) + 14 * 16) mod 16" by simp
  also have "\<dots> = (b - 224) mod 16" by (rule mod_mult_self1)
  also from a have "\<dots> = b - 224" by simp
  finally show ?thesis .
qed

lemma mask8: "240 \<le> b \<Longrightarrow> b \<le> 244 \<Longrightarrow> b mod 8 = b - (240::nat)"
proof -
  assume a: "240 \<le> b" "b \<le> 244"
  then have "b = (b - 240) + 30 * 8" by simp
  then have "b mod 8 = ((b - 240) + 30 * 8) mod 8" by simp
  also have "\<dots> = (b - 240) mod 8" by (rule mod_mult_self1)
  also from a have "\<dots> = b - 240" by simp
  finally show ?thesis .
qed

lemma bom_digits:
  fixes m1 m2 m3 :: nat
  assumes "m2 < 64" "m3 < 64" "(m1 * 64 + m2) * 64 + m3 = 65279"
  shows "m1 = 15 \<and> m2 = 59 \<and> m3 = 63"
proof -
  from assms(2,3) have "m3 = 65279 mod 64"
    by (metis mod_mult_self3 mod_less)
  then have m3: "m3 = 63" by simp
  with assms(3) have "(m1 * 64 + m2) * 64 = 1019 * 64" by simp
  then have e: "m1 * 64 + m2 = 1019" by simp
  with assms(1) have "m2 = 1019 mod 64"
    by (metis mod_mult_self3 mod_less)
  then have m2: "m2 = 59" by simp
  with e have "m1 * 64 = 15 * 64" by simp
  then have "m1 = 15" by simp
  with m2 m3 show ?thesis by simp
qed

lemma no_four_bytes:
  fixes n1 n2 n3 n4 :: nat
  assumes "1 \<le> n1 \<or> 16 \<le> n2" "((n1 * 64 + n2) * 64 + n3) * 64 + n4 = 65279"
  shows False
proof -
  from assms(1) have "16 \<le> n1 * 64 + n2" by auto
  then have "16 * 64 \<le> (n1 * 64 + n2) * 64" by simp
  then have "16 * 64 * 64 \<le> ((n1 * 64 + n2) * 64 + n3) * 64" by simp
  with assms(2) show False by simp
qed

lemma utf8_run_Nil_open: "utf8_run (DState (Suc n) s cp lo up) [] = [65533]"
  by simp

lemma first_code_point_BOM:
  assumes "utf8_decode v = 65279 # rest"
  shows "has_BOM v"
proof -
  from assms obtain b1 v1 where v: "v = b1 # v1"
    by (cases v) (simp_all add: utf8_decode_def dstate0_def)
  consider "b1 \<le> 127" | "194 \<le> b1 \<and> b1 \<le> 223" | "224 \<le> b1 \<and> b1 \<le> 239"
    | "240 \<le> b1 \<and> b1 \<le> 244" | "(128 \<le> b1 \<and> b1 < 194) \<or> 244 < b1"
    by linarith
  then show ?thesis
  proof cases
    case 1
    with assms v show ?thesis
      by (simp add: utf8_decode_def utf8_step_def utf8_lead_def dstate0_def)
  next
    case 2
    then have l: "utf8_step dstate0 b1 = ([], DState 1 0 (b1 mod 32) 128 191)"
      by (simp add: utf8_step_def utf8_lead_def dstate0_def)
    show ?thesis
    proof (cases v1)
      case Nil
      with assms v l show ?thesis by (simp add: utf8_decode_def)
    next
      case (Cons b2 v2)
      have "b1 mod 32 < 32" by simp
      with assms v l Cons show ?thesis
        by (auto simp: utf8_decode_def utf8_step_def split: if_splits prod.splits)
    qed
  next
    case 3
    define lo where "lo = (if b1 = 224 then 160 else (128::nat))"
    define up where "up = (if b1 = 237 then 159 else (191::nat))"
    from 3 have l: "utf8_step dstate0 b1 = ([], DState 2 0 (b1 mod 16) lo up)"
      by (simp add: utf8_step_def utf8_lead_def dstate0_def lo_def up_def)
    have lo: "128 \<le> lo" and up: "up \<le> 191" by (simp_all add: lo_def up_def)
    show ?thesis
    proof (cases v1)
      case Nil
      with assms v l show ?thesis by (simp add: utf8_decode_def)
    next
      case v1: (Cons b2 v2)
      show ?thesis
      proof (cases "b2 < lo \<or> up < b2")
        case True
        with assms v l v1 show ?thesis
          by (auto simp: utf8_decode_def utf8_step_def split: prod.splits)
      next
        case False
        then have s2: "utf8_step (DState 2 0 (b1 mod 16) lo up) b2
            = ([], DState 2 1 (b1 mod 16 * 64 + b2 mod 64) 128 191)"
          by (simp add: utf8_step_def)
        show ?thesis
        proof (cases v2)
          case Nil
          with assms v l v1 s2 show ?thesis by (simp add: utf8_decode_def)
        next
          case v2: (Cons b3 v3)
          show ?thesis
          proof (cases "b3 < 128 \<or> 191 < b3")
            case True
            with assms v l v1 s2 v2 show ?thesis
              by (auto simp: utf8_decode_def utf8_step_def split: prod.splits)
          next
            case b3: False
            then have "utf8_step (DState 2 1 (b1 mod 16 * 64 + b2 mod 64) 128 191) b3
                = ([(b1 mod 16 * 64 + b2 mod 64) * 64 + b3 mod 64], dstate0)"
              by (simp add: utf8_step_def)
            with assms v l v1 s2 v2
            have eq: "(b1 mod 16 * 64 + b2 mod 64) * 64 + b3 mod 64 = 65279"
              by (simp add: utf8_decode_def)
            have "b2 mod 64 < 64" "b3 mod 64 < 64" by simp_all
            from bom_digits [OF this eq]
            have r: "b1 mod 16 = 15" "b2 mod 64 = 59" "b3 mod 64 = 63" by simp_all
            from 3 r(1) have "b1 = 239" by (simp add: mask16)
            moreover from False lo up r(2) have "b2 = 187" by (simp add: mask64)
            moreover from b3 r(3) have "b3 = 191" by (simp add: mask64)
            ultimately show ?thesis using v v1 v2 by (simp add: has_BOM_def)
          qed
        qed
      qed
    qed
  next
    case 4
    define lo where "lo = (if b1 = 240 then 144 else (128::nat))"
    define up where "up = (if b1 = 244 then 143 else (191::nat))"
    from 4 have l: "utf8_step dstate0 b1 = ([], DState 3 0 (b1 mod 8) lo up)"
      by (simp add: utf8_step_def utf8_lead_def dstate0_def lo_def up_def)
    have lo: "128 \<le> lo" and up: "up \<le> 191" by (simp_all add: lo_def up_def)
    show ?thesis
    proof (cases v1)
      case Nil
      with assms v l show ?thesis by (simp add: utf8_decode_def)
    next
      case v1: (Cons b2 v2)
      show ?thesis
      proof (cases "b2 < lo \<or> up < b2")
        case True
        with assms v l v1 show ?thesis
          by (auto simp: utf8_decode_def utf8_step_def split: prod.splits)
      next
        case b2: False
        then have s2: "utf8_step (DState 3 0 (b1 mod 8) lo up) b2
            = ([], DState 3 1 (b1 mod 8 * 64 + b2 mod 64) 128 191)"
          by (simp add: utf8_step_def)
        show ?thesis
        proof (cases v2)
          case Nil
          with assms v l v1 s2 show ?thesis by (simp add: utf8_decode_def)
        next
          case v2: (Cons b3 v3)
          show ?thesis
          proof (cases "b3 < 128 \<or> 191 < b3")
            case True
            with assms v l v1 s2 v2 show ?thesis
              by (auto simp: utf8_decode_def utf8_step_def split: prod.splits)
          next
            case b3: False
            then have s3: "utf8_step (DState 3 1 (b1 mod 8 * 64 + b2 mod 64) 128 191) b3
                = ([], DState 3 2 ((b1 mod 8 * 64 + b2 mod 64) * 64 + b3 mod 64) 128 191)"
              by (simp add: utf8_step_def)
            show ?thesis
            proof (cases v3)
              case Nil
              with assms v l v1 s2 v2 s3 show ?thesis by (simp add: utf8_decode_def)
            next
              case v3: (Cons b4 v4)
              show ?thesis
              proof (cases "b4 < 128 \<or> 191 < b4")
                case True
                with assms v l v1 s2 v2 s3 v3 show ?thesis
                  by (auto simp: utf8_decode_def utf8_step_def split: prod.splits)
              next
                case False
                then have "utf8_step (DState 3 2 ((b1 mod 8 * 64 + b2 mod 64) * 64 + b3 mod 64) 128 191) b4
                    = ([((b1 mod 8 * 64 + b2 mod 64) * 64 + b3 mod 64) * 64 + b4 mod 64], dstate0)"
                  by (simp add: utf8_step_def)
                with assms v l v1 s2 v2 s3 v3
                have eq: "((b1 mod 8 * 64 + b2 mod 64) * 64 + b3 mod 64) * 64 + b4 mod 64 = 65279"
                  by (simp add: utf8_decode_def)
                have "1 \<le> b1 mod 8 \<or> 16 \<le> b2 mod 64"
                proof (cases "b1 = 240")
                  case True
                  with b2 up have "144 \<le> b2" "b2 \<le> 191" by (simp_all add: lo_def)
                  then have "16 \<le> b2 mod 64" by (simp add: mask64)
                  then show ?thesis ..
                next
                  case False
                  with 4 have "1 \<le> b1 - 240" by arith
                  with 4 have "1 \<le> b1 mod 8" by (simp add: mask8)
                  then show ?thesis ..
                qed
                from no_four_bytes [OF this eq] have False .
                then show ?thesis ..
              qed
            qed
          qed
        qed
      qed
    qed
  next
    case 5
    with assms v show ?thesis
      by (auto simp: utf8_decode_def utf8_step_def utf8_lead_def dstate0_def)
  qed
qed

lemma drop_BOM_without:
  assumes "\<not> has_BOM v"
  shows "TextDecoder_decode v = utf16 (utf8_decode v)"
proof (cases "utf8_decode v")
  case Nil
  then show ?thesis by (simp add: TextDecoder_decode_def drop_BOM_def)
next
  case (Cons c rest)
  with assms first_code_point_BOM [of v rest] have "c \<noteq> 65279" by auto
  with Cons show ?thesis by (simp add: TextDecoder_decode_def drop_BOM_def)
qed

lemma TextDecoder_decode_ascii:
  assumes "\<forall>b \<in> set v. b \<le> 127"
  shows "TextDecoder_decode v = v"
proof -
  have "utf8_run dstate0 v = v"
    using assms by (induction v) (simp_all add: dstate0_def utf8_step_def utf8_lead_def)
  moreover have "utf16 v = v"
    using assms by (induction v) (simp_all add: utf16_def utf16_units_def)
  moreover have "drop_BOM v = v"
    using assms by (cases v) (auto simp: drop_BOM_def)
  ultimately show ?thesis by (simp add: TextDecoder_decode_def utf8_decode_def)
qed

section \<open>Lines of a chunk\<close>

lemma js_split_not_Nil: "js_split sep s \<noteq> []"
  by (induction s) (auto split: list.splits)

lemma js_split_append_sep: "js_split sep (a @ sep # b) = js_split sep a @ js_split sep b"
proof (induction a)
  case Nil
  then show ?case by simp
next
  case (Cons c a)
  then show ?case
    using js_split_not_Nil [of sep a] by (cases "js_split sep a") auto
qed

lemma js_split_no_sep: "sep \<notin> set s \<Longrightarrow> js_split sep s = [s]"
  by (induction s) auto

lemma chunk_lines_Nil: "chunk_lines [] = []"
  by (simp add: chunk_lines_def trim_def)

lemma chunk_lines_append_sep: "chunk_lines (a @ 10 # b) = chunk_lines a @ chunk_lines b"
  by (simp add: chunk_lines_def js_split_append_sep)

lemma chunk_lines_append:
  assumes "a = [] \<or> last a = 10"
  shows "chunk_lines (a @ b) = chunk_lines a @ chunk_lines b"
proof (cases "a = []")
  case True
  then show ?thesis by (simp add: chunk_lines_Nil)
next
  case False
  with assms have "a = butlast a @ [10]"
    by (metis append_butlast_last_id)
  then obtain a' where a: "a = a' @ [10]" ..
  have "chunk_lines (a @ b) = chunk_lines (a' @ 10 # b)" by (simp add: a)
  also have "\<dots> = chunk_lines a' @ chunk_lines b" by (rule chunk_lines_append_sep)
  also have "chunk_lines a' = chunk_lines (a' @ 10 # [])"
    by (simp only: chunk_lines_append_sep chunk_lines_Nil append_Nil2)
  finally show ?thesis by (simp add: a)
qed

lemma chunk_lines_concat:
  assumes "\<forall>c \<in> set (butlast cs). c = [] \<or> last c = 10"
  shows "chunk_lines (concat cs) = concat (map chunk_lines cs)"
  using assms
proof (induction cs)
  case Nil
  then show ?case by (simp add: chunk_lines_Nil)
next
  case (Cons c cs)
  show ?case
  proof (cases "cs = []")
    case True
    then show ?thesis by simp
  next
    case False
    with Cons.prems have c: "c = [] \<or> last c = 10" and rest: "\<forall>c \<in> set (butlast cs). c = [] \<or> last c = 10"
      by auto
    from c have "chunk_lines (c @ concat cs) = chunk_lines c @ chunk_lines (concat cs)"
      by (rule chunk_lines_append)
    with Cons.IH [OF rest] show ?thesis by simp
  qed
qed

section \<open>Lines in sequence\<close>

lemma process_lines_append:
  "process_lines parse (xs @ ys) st =
     (case process_lines parse xs st of
        (Return, st') \<Rightarrow> (Return, st')
      | (Continue, st') \<Rightarrow> process_lines parse ys st')"
  by (induction xs arbitrary: st) (auto split: prod.splits flow.splits)

lemma process_data_reads:
  "process_data parse data (st\<lparr>reads := r\<rparr>) = (process_data parse data st)\<lparr>reads := r\<rparr>"
  by (simp add: process_data_def warn_def markdown_def split: option.splits sum.splits)

lemma process_line_reads:
  "process_line parse line (st\<lparr>reads := r\<rparr>) = apsnd (\<lambda>s. s\<lparr>reads := r\<rparr>) (process_line parse line st)"
  by (simp add: process_line_def process_data_reads Let_def)

lemma process_lines_reads:
  "process_lines parse ls (st\<lparr>reads := r\<rparr>) = apsnd (\<lambda>s. s\<lparr>reads := r\<rparr>) (process_lines parse ls st)"
proof (induction ls arbitrary: st)
  case Nil
  then show ?case by simp
next
  case (Cons l ls)
  show ?case
  proof (cases "process_line parse l st")
    case (Pair f st')
    then show ?thesis
      by (cases f) (simp_all add: process_line_reads Cons.IH)
  qed
qed

section \<open>The read loop\<close>

lemma read_loop_no_cancel_sink:
  assumes "\<forall>k < length cs. \<not> token (i + k)"
  shows "sink (snd (read_loop parse token i (map Chunk cs) st))
           = sink (snd (process_lines parse (concat (map (\<lambda>c. chunk_lines (TextDecoder_decode c)) cs)) st))
       \<and> warnings (snd (read_loop parse token i (map Chunk cs) st))
           = warnings (snd (process_lines parse (concat (map (\<lambda>c. chunk_lines (TextDecoder_decode c)) cs)) st))"
  using assms
proof (induction cs arbitrary: i st)
  case Nil
  then show ?case by simp
next
  case (Cons c cs)
  from Cons.prems have t0: "\<not> token i" and tn: "\<forall>k < length cs. \<not> token (Suc i + k)"
    by force+
  obtain f st' where p: "process_lines parse (chunk_lines (TextDecoder_decode c)) st = (f, st')"
    by (cases "process_lines parse (chunk_lines (TextDecoder_decode c)) st")
  have pr: "process_lines parse (chunk_lines (TextDecoder_decode c)) (st\<lparr>reads := Suc (reads st)\<rparr>)
              = (f, st'\<lparr>reads := Suc (reads st)\<rparr>)"
    by (simp add: process_lines_reads p)
  show ?case
  proof (cases f)
    case Continue
    have "sink (snd (process_lines parse (concat (map (\<lambda>c. chunk_lines (TextDecoder_decode c)) cs)) (st'\<lparr>reads := Suc (reads st)\<rparr>)))
            = sink (snd (process_lines parse (concat (map (\<lambda>c. chunk_lines (TextDecoder_decode c)) cs)) st'))"
      and "warnings (snd (process_lines parse (concat (map (\<lambda>c. chunk_lines (TextDecoder_decode c)) cs)) (st'\<lparr>reads := Suc (reads st)\<rparr>)))
            = warnings (snd (process_lines parse (concat (map (\<lambda>c. chunk_lines (TextDecoder_decode c)) cs)) st'))"
      by (simp_all add: process_lines_reads)
    with Continue t0 p pr Cons.IH [OF tn] show ?thesis
      by (simp add: process_lines_append)
  next
    case Return
    with t0 p pr show ?thesis
      by (simp add: process_lines_append)
  qed
qed

lemma read_loop_chunks_return: "fst (read_loop parse token i (map Chunk cs) st) = Inr ()"
  by (induction cs arbitrary: i st) (auto split: prod.splits flow.splits)

lemma streamAIResponse_streaming:
  assumes "ok r" and "body r = Some b"
  shows "streamAIResponse parse token (Resolved r) =
           (case read_loop parse token 0 b initial of
              (Inl (Error msg), st) \<Rightarrow>
                (Inr (), markdown (JString (js ''Failed to get response from AI service: '' @ msg))
                           (st\<lparr>released := True\<rparr>))
            | (Inr u, st) \<Rightarrow> (Inr u, st\<lparr>released := True\<rparr>))"
  using assms
  by (simp add: streamAIResponse_def stream_try_def split: prod.splits sum.splits error.splits)

lemma streamAIResponse_chunks:
  assumes "ok r" and "body r = Some (map Chunk cs)"
  shows "streamAIResponse parse token (Resolved r) =
           (Inr (), (snd (read_loop parse token 0 (map Chunk cs) initial))\<lparr>released := True\<rparr>)"
proof -
  obtain res st where rl: "read_loop parse token 0 (map Chunk cs) initial = (res, st)"
    by (cases "read_loop parse token 0 (map Chunk cs) initial")
  with read_loop_chunks_return [of parse token 0 cs initial] have "res = Inr ()" by simp
  with rl assms show ?thesis by (simp add: streamAIResponse_streaming)
qed

lemma sink_initial: "sink initial = []"
  by (simp add: initial_def)

lemma read_loop_single_sink:
  "sink (snd (read_loop parse token i [Chunk c] st))
     = (if token i then sink st else sink (snd (process_lines parse (chunk_lines (TextDecoder_decode c)) st)))"
proof (cases "process_lines parse (chunk_lines (TextDecoder_decode c)) st")
  case (Pair f st')
  then show ?thesis
    by (cases f) (simp_all add: process_lines_reads)
qed

lemma read_loop_replace_chunk:
  assumes "\<And>s. process_lines parse (chunk_lines (TextDecoder_decode v)) s
             = process_lines parse (chunk_lines (TextDecoder_decode v')) s"
  shows "read_loop parse token i (before @ Chunk v # rest) st
       = read_loop parse token i (before @ Chunk v' # rest) st"
proof (induction before arbitrary: i st)
  case Nil
  show ?case by (simp add: assms)
next
  case (Cons x before)
  then show ?case
    by (cases x) (simp_all split: prod.splits flow.splits)
qed

lemma streamAIResponse_cong:
  assumes "ok r" and "ok r'" and "body r = Some b" and "body r' = Some b'"
    and "read_loop parse token 0 b initial = read_loop parse token 0 b' initial"
  shows "streamAIResponse parse token (Resolved r) = streamAIResponse parse token (Resolved r')"
  using assms by (simp add: streamAIResponse_streaming)

lemma streamAIResponse_replace_chunk:
  assumes "\<And>s. process_lines parse (chunk_lines (TextDecoder_decode v)) s
             = process_lines parse (chunk_lines (TextDecoder_decode v')) s"
  shows "streamAIResponse parse token (Resolved (r\<lparr>ok := True, body := Some (before @ Chunk v # rest)\<rparr>))
       = streamAIResponse parse token (Resolved (r\<lparr>ok := True, body := Some (before @ Chunk v' # rest)\<rparr>))"
  using read_loop_replace_chunk [OF assms, of token 0 before rest initial]
  by (simp add: streamAIResponse_cong)

section \<open>Chunks that end at line ends\<close>

lemma utf8_decode_Nil: "utf8_decode [] = []"
  by (simp add: utf8_decode_def dstate0_def)

lemma utf16_Nil: "utf16 [] = []"
  by (simp add: utf16_def)

lemma ends_with_line_feed:
  assumes "a \<noteq> []" and "last a = 10"
  obtains a' where "a = a' @ [10]"
  using assms by (metis append_butlast_last_id)

lemma utf16_utf8_append:
  assumes "a = [] \<or> last a = 10"
  shows "utf16 (utf8_decode (a @ b)) = utf16 (utf8_decode a) @ utf16 (utf8_decode b)"
proof (cases "a = []")
  case True
  then show ?thesis by (simp add: utf8_decode_Nil utf16_def)
next
  case False
  with assms obtain a' where a: "a = a' @ [10]" by (auto elim: ends_with_line_feed)
  have "utf8_decode (a' @ 10 # b) = utf8_decode a' @ 10 # utf8_decode b"
    by (rule utf8_decode_line_feed)
  moreover have "utf8_decode (a' @ 10 # []) = utf8_decode a' @ 10 # utf8_decode []"
    by (rule utf8_decode_line_feed)
  ultimately show ?thesis
    unfolding a by (simp add: utf8_decode_Nil utf16_append utf16_line_feed utf16_Nil)
qed

lemma TextDecoder_decode_append:
  assumes "a \<noteq> []" and "last a = 10"
  shows "TextDecoder_decode (a @ b) = TextDecoder_decode a @ utf16 (utf8_decode b)"
proof -
  from assms obtain a' where a: "a = a' @ [10]" by (rule ends_with_line_feed)
  have "TextDecoder_decode (a' @ 10 # b) = TextDecoder_decode a' @ 10 # utf16 (utf8_decode b)"
    by (rule TextDecoder_decode_line_feed)
  moreover have "TextDecoder_decode (a' @ [10]) = TextDecoder_decode a' @ [10]"
    by (rule TextDecoder_decode_ends_line_feed)
  ultimately show ?thesis
    unfolding a by simp
qed

lemma TextDecoder_decode_last:
  assumes "c = [] \<or> last c = 10"
  shows "TextDecoder_decode c = [] \<or> last (TextDecoder_decode c) = 10"
proof (cases "c = []")
  case True
  then show ?thesis by (simp add: TextDecoder_decode_Nil)
next
  case False
  with assms obtain c' where c: "c = c' @ [10]" by (auto elim: ends_with_line_feed)
  have "TextDecoder_decode (c' @ [10]) = TextDecoder_decode c' @ [10]"
    by (rule TextDecoder_decode_ends_line_feed)
  then show ?thesis
    unfolding c by simp
qed

lemma utf16_utf8_concat:
  assumes "\<forall>c \<in> set (butlast cs). c = [] \<or> last c = 10"
  shows "utf16 (utf8_decode (concat cs)) = concat (map (\<lambda>c. utf16 (utf8_decode c)) cs)"
  using assms
proof (induction cs)
  case Nil
  then show ?case by (simp add: utf8_decode_Nil utf16_def)
next
  case (Cons c cs)
  show ?case
  proof (cases "cs = []")
    case True
    then show ?thesis by simp
  next
    case False
    with Cons.prems have c: "c = [] \<or> last c = 10"
      and rest: "\<forall>c \<in> set (butlast cs). c = [] \<or> last c = 10"
      by auto
    from utf16_utf8_append [OF c, of "concat cs"] Cons.IH [OF rest] show ?thesis by simp
  qed
qed

lemma TextDecoder_decode_concat:
  assumes "\<forall>c \<in> set (butlast cs). c = [] \<or> last c = 10"
    and "\<forall>c \<in> set (tl cs). \<not> has_BOM c"
  shows "TextDecoder_decode (concat cs) = concat (map TextDecoder_decode cs)"
  using assms
proof (induction cs)
  case Nil
  then show ?case by (simp add: TextDecoder_decode_Nil)
next
  case (Cons c cs)
  show ?case
  proof (cases "cs = []")
    case True
    then show ?thesis by simp
  next
    case False
    with Cons.prems have c: "c = [] \<or> last c = 10"
      and rest: "\<forall>c \<in> set (butlast cs). c = [] \<or> last c = 10"
      and bom: "\<forall>c \<in> set cs. \<not> has_BOM c"
      by auto
    show ?thesis
    proof (cases "c = []")
      case True
      from bom have "\<forall>c \<in> set (tl cs). \<not> has_BOM c"
        by (cases cs) auto
      with True Cons.IH [OF rest] show ?thesis by (simp add: TextDecoder_decode_Nil)
    next
      case ne: False
      with c have "TextDecoder_decode (c @ concat cs)
          = TextDecoder_decode c @ utf16 (utf8_decode (concat cs))"
        by (simp add: TextDecoder_decode_append)
      also have "utf16 (utf8_decode (concat cs)) = concat (map (\<lambda>c. utf16 (utf8_decode c)) cs)"
        using rest by (rule utf16_utf8_concat)
      also have "map (\<lambda>c. utf16 (utf8_decode c)) cs = map TextDecoder_decode cs"
        using bom by (simp add: drop_BOM_without)
      finally show ?thesis by simp
    qed
  qed
qed

lemma decoded_lines_concat:
  assumes "\<forall>c \<in> set (butlast cs). c = [] \<or> last c = 10"
    and "\<forall>c \<in> set (tl cs). \<not> has_BOM c"
  shows "chunk_lines (TextDecoder_decode (concat cs))
       = concat (map (\<lambda>c. chunk_lines (TextDecoder_decode c)) cs)"
proof -
  have "\<forall>t \<in> set (butlast (map TextDecoder_decode cs)). t = [] \<or> last t = 10"
    using assms(1) by (auto simp: map_butlast [symmetric] TextDecoder_decode_last)
  from chunk_lines_concat [OF this] TextDecoder_decode_concat [OF assms]
  show ?thesis by (simp add: comp_def)
qed

lemma decoded_lines_line_feed:
  "chunk_lines (TextDecoder_decode (v @ [10])) = chunk_lines (TextDecoder_decode v)"
  using chunk_lines_append_sep [of "TextDecoder_decode v" "[]"]
  by (simp add: TextDecoder_decode_ends_line_feed chunk_lines_Nil)

text \<open>
  C1, as the code has it. The decoder keeps no carry-over buffer: every chunk is decoded,
  split and processed on its own. So the increments are those of the undivided stream when
  the chunks end at line ends: if no cancellation is seen while the chunks are read, every
  chunk but the last is empty or ends with a line feed, and no chunk after the first
  begins with a byte order mark (which the decoder of a chunk would drop), then the chunks
  fed one at a time give the same sequence of calls of the sink as their concatenation fed
  as one chunk. And the unterminated tail of a chunk is taken for a complete line: any
  chunk of any stream gives the same result with a line feed added at its end.
\<close>

theorem chunk_boundaries_at_line_ends:
  assumes "\<forall>i < length cs. \<not> token i"
    and "\<forall>c \<in> set (butlast cs). c = [] \<or> last c = 10"
    and "\<forall>c \<in> set (tl cs). \<not> has_BOM c"
  shows "sink (snd (streamAIResponse parse token (Resolved (r\<lparr>ok := True, body := Some (map Chunk cs)\<rparr>))))
         = sink (snd (streamAIResponse parse token (Resolved (r\<lparr>ok := True, body := Some [Chunk (concat cs)]\<rparr>))))
       \<and> streamAIResponse parse token (Resolved (r\<lparr>ok := True, body := Some (before @ Chunk v # rest)\<rparr>))
         = streamAIResponse parse token (Resolved (r\<lparr>ok := True, body := Some (before @ Chunk (v @ [10]) # rest)\<rparr>))"
proof -
  have split_up: "sink (snd (streamAIResponse parse token (Resolved (r\<lparr>ok := True, body := Some (map Chunk cs)\<rparr>))))
      = sink (snd (process_lines parse (concat (map (\<lambda>c. chunk_lines (TextDecoder_decode c)) cs)) initial))"
    using read_loop_no_cancel_sink [of cs token 0 parse initial] assms(1)
    by (simp add: streamAIResponse_chunks)
  have "sink (snd (streamAIResponse parse token (Resolved (r\<lparr>ok := True, body := Some [Chunk (concat cs)]\<rparr>))))
      = sink (snd (read_loop parse token 0 [Chunk (concat cs)] initial))"
    using streamAIResponse_chunks [of "r\<lparr>ok := True, body := Some [Chunk (concat cs)]\<rparr>" "[concat cs]" parse token]
    by simp
  also have "\<dots> = (if token 0 then []
      else sink (snd (process_lines parse (chunk_lines (TextDecoder_decode (concat cs))) initial)))"
    by (simp only: read_loop_single_sink sink_initial)
  also have "\<dots> = sink (snd (process_lines parse (concat (map (\<lambda>c. chunk_lines (TextDecoder_decode c)) cs)) initial))"
  proof (cases "cs = []")
    case True
    then show ?thesis by (simp add: TextDecoder_decode_Nil chunk_lines_Nil sink_initial)
  next
    case False
    with assms(1) have "\<not> token 0" by auto
    then show ?thesis by (simp add: decoded_lines_concat [OF assms(2,3)])
  qed
  finally have joined: "sink (snd (streamAIResponse parse token (Resolved (r\<lparr>ok := True, body := Some (map Chunk cs)\<rparr>))))
         = sink (snd (streamAIResponse parse token (Resolved (r\<lparr>ok := True, body := Some [Chunk (concat cs)]\<rparr>))))"
    using split_up by simp
  have "streamAIResponse parse token (Resolved (r\<lparr>ok := True, body := Some (before @ Chunk v # rest)\<rparr>))
         = streamAIResponse parse token (Resolved (r\<lparr>ok := True, body := Some (before @ Chunk (v @ [10]) # rest)\<rparr>))"
    by (rule streamAIResponse_replace_chunk) (simp add: decoded_lines_line_feed)
  with joined show ?thesis by simp
qed

theorem chunk_boundaries_at_line_ends_witness:
  "sink (snd (streamAIResponse JSON_parse never_cancelled
        (Resolved \<lparr>ok = True, status = 200, statusText = js ''OK'',
           body = Some [Chunk ([239, 187, 191] @ bytes ''data: {\"choices\":[{\"delta\":{\"content\":\"Hel\"}}]}\<newline>''),
                        Chunk (bytes ''\<newline>data: {\"choices\":[{\"delta\":{\"content\":\"lo\"}}]}\<newline>''),
                        Chunk (bytes ''data: [DONE]'')]\<rparr>)))
     = sink (snd (streamAIResponse JSON_parse never_cancelled
        (Resolved \<lparr>ok = True, status = 200, statusText = js ''OK'',
           body = Some [Chunk ([239, 187, 191] @ bytes ''data: {\"choices\":[{\"delta\":{\"content\":\"Hel\"}}]}\<newline>\<newline>data: {\"choices\":[{\"delta\":{\"content\":\"lo\"}}]}\<newline>data: [DONE]'')]\<rparr>)))
   \<and> sink (snd (streamAIResponse JSON_parse never_cancelled
        (Resolved \<lparr>ok = True, status = 200, statusText = js ''OK'',
           body = Some [Chunk ([239, 187, 191] @ bytes ''data: {\"choices\":[{\"delta\":{\"content\":\"Hel\"}}]}\<newline>\<newline>data: {\"choices\":[{\"delta\":{\"content\":\"lo\"}}]}\<newline>data: [DONE]'')]\<rparr>)))
     = [JString (js ''Hel''), JString (js ''lo'')]
   \<and> streamAIResponse JSON_parse never_cancelled
        (Resolved \<lparr>ok = True, status = 200, statusText = js ''OK'',
           body = Some [Chunk (bytes ''data: {\"choices\":[{\"delta\":{\"content\":\"Hel\"}}]}''),
                        Chunk (bytes ''data: {\"choices\":[{\"delta\":{\"content\":\"lo\"}}]}'')]\<rparr>)
     = streamAIResponse JSON_parse never_cancelled
        (Resolved \<lparr>ok = True, status = 200, statusText = js ''OK'',
           body = Some [Chunk (bytes ''data: {\"choices\":[{\"delta\":{\"content\":\"Hel\"}}]}\<newline>''),
                        Chunk (bytes ''data: {\"choices\":[{\"delta\":{\"content\":\"lo\"}}]}'')]\<rparr>)
   \<and> streamAIResponse JSON_parse never_cancelled
        (Resolved \<lparr>ok = True, status = 200, statusText = js ''OK'',
           body = Some [Chunk (bytes ''data: {\"choices\":[{\"delta\":{\"content\":\"Hel\"}}]}''),
                        Chunk (bytes ''data: {\"choices\":[{\"delta\":{\"content\":\"lo\"}}]}'')]\<rparr>)
     = (Inr (), \<lparr>sink = [JString (js ''Hel''), JString (js ''lo'')], warnings = 0, reads = 3, released = True\<rparr>)"
proof -
  let ?cs = "[[239, 187, 191] @ bytes ''data: {\"choices\":[{\"delta\":{\"content\":\"Hel\"}}]}\<newline>'',
              bytes ''\<newline>data: {\"choices\":[{\"delta\":{\"content\":\"lo\"}}]}\<newline>'',
              bytes ''data: [DONE]'']"
  have h1: "\<forall>i < length ?cs. \<not> never_cancelled i"
    by (simp add: never_cancelled_def)
  have h2: "\<forall>c \<in> set (butlast ?cs). c = [] \<or> last c = 10"
    by (simp add: bytes_def)
  have h3: "\<forall>c \<in> set (tl ?cs). \<not> has_BOM c"
    by (simp add: bytes_def has_BOM_def)
  have whole: "sink (snd (streamAIResponse JSON_parse never_cancelled
        (Resolved \<lparr>ok = True, status = 200, statusText = js ''OK'',
           body = Some [Chunk ([239, 187, 191] @ bytes ''data: {\"choices\":[{\"delta\":{\"content\":\"Hel\"}}]}\<newline>\<newline>data: {\"choices\":[{\"delta\":{\"content\":\"lo\"}}]}\<newline>data: [DONE]'')]\<rparr>)))
     = [JString (js ''Hel''), JString (js ''lo'')]"
    by (simp add: decoder_eval)
  have tails: "streamAIResponse JSON_parse never_cancelled
        (Resolved \<lparr>ok = True, status = 200, statusText = js ''OK'',
           body = Some [Chunk (bytes ''data: {\"choices\":[{\"delta\":{\"content\":\"Hel\"}}]}''),
                        Chunk (bytes ''data: {\"choices\":[{\"delta\":{\"content\":\"lo\"}}]}'')]\<rparr>)
     = (Inr (), \<lparr>sink = [JString (js ''Hel''), JString (js ''lo'')], warnings = 0, reads = 3, released = True\<rparr>)"
    by (simp add: decoder_eval)
  from chunk_boundaries_at_line_ends [where token = never_cancelled and parse = JSON_parse
        and cs = ?cs and before = "[]"
        and v = "bytes ''data: {\"choices\":[{\"delta\":{\"content\":\"Hel\"}}]}''"
        and rest = "[Chunk (bytes ''data: {\"choices\":[{\"delta\":{\"content\":\"lo\"}}]}'')]"
        and r = "\<lparr>ok = True, status = 200, statusText = js ''OK'', body = None\<rparr>", OF h1 h2 h3]
  have "sink (snd (streamAIResponse JSON_parse never_cancelled
        (Resolved \<lparr>ok = True, status = 200, statusText = js ''OK'', body = Some (map Chunk ?cs)\<rparr>)))
     = sink (snd (streamAIResponse JSON_parse never_cancelled
        (Resolved \<lparr>ok = True, status = 200, statusText = js ''OK'', body = Some [Chunk (concat ?cs)]\<rparr>)))"
    and "streamAIResponse JSON_parse never_cancelled
        (Resolved \<lparr>ok = True, status = 200, statusText = js ''OK'',
           body = Some [Chunk (bytes ''data: {\"choices\":[{\"delta\":{\"content\":\"Hel\"}}]}''),
                        Chunk (bytes ''data: {\"choices\":[{\"delta\":{\"content\":\"lo\"}}]}'')]\<rparr>)
     = streamAIResponse JSON_parse never_cancelled
        (Resolved \<lparr>ok = True, status = 200, statusText = js ''OK'',
           body = Some [Chunk (bytes ''data: {\"choices\":[{\"delta\":{\"content\":\"Hel\"}}]}'' @ [10]),
                        Chunk (bytes ''data: {\"choices\":[{\"delta\":{\"content\":\"lo\"}}]}'')]\<rparr>)"
    by simp_all
  then show ?thesis
    using whole tails by (simp add: bytes_def)
qed

text \<open>
  C1, as stated, fails: a frame cut by a chunk boundary is lost. The first chunk ends inside
  the JSON payload, which does not parse; the second chunk does not begin with the prefix.
  A cut at a line end changes the result as well when the next chunk begins with a byte
  order mark: decoded on its own, the chunk loses the mark and its frame is delivered;
  inside the undivided stream the mark stays before the prefix and the frame is skipped.
\<close>

theorem chunk_boundary_counterexample:
  "sink (snd (streamAIResponse JSON_parse never_cancelled
      (Resolved \<lparr>ok = True, status = 200, statusText = js ''OK'',
         body = Some [Chunk (bytes ''data: {\"choices\":[{\"delta\":{\"content\":\"Hel''),
                      Chunk (bytes ''lo\"}}]}\<newline>'')]\<rparr>))) = []
   \<and> sink (snd (streamAIResponse JSON_parse never_cancelled
      (Resolved \<lparr>ok = True, status = 200, statusText = js ''OK'',
         body = Some [Chunk (bytes ''data: {\"choices\":[{\"delta\":{\"content\":\"Hello\"}}]}\<newline>'')]\<rparr>)))
     = [JString (js ''Hello'')]
   \<and> sink (snd (streamAIResponse JSON_parse never_cancelled
      (Resolved \<lparr>ok = True, status = 200, statusText = js ''OK'',
         body = Some [Chunk (bytes ''data: {\"choices\":[{\"delta\":{\"content\":\"a\"}}]}\<newline>''),
                      Chunk ([239, 187, 191] @ bytes ''data: {\"choices\":[{\"delta\":{\"content\":\"b\"}}]}\<newline>'')]\<rparr>)))
     = [JString (js ''a''), JString (js ''b'')]
   \<and> sink (snd (streamAIResponse JSON_parse never_cancelled
      (Resolved \<lparr>ok = True, status = 200, statusText = js ''OK'',
         body = Some [Chunk (bytes ''data: {\"choices\":[{\"delta\":{\"content\":\"a\"}}]}\<newline>''
                        @ [239, 187, 191] @ bytes ''data: {\"choices\":[{\"delta\":{\"content\":\"b\"}}]}\<newline>'')]\<rparr>)))
     = [JString (js ''a'')]"
  by (simp add: decoder_eval)

section \<open>The concrete scenario\<close>

text \<open>
  C7. The three frames of the specification's scenario, received as one chunk, give the
  increments \<open>Hel\<close> and \<open>lo\<close> and nothing else: the function returns at the sentinel after
  one read, without a warning or a failure notice, and releases the reader. Received one
  frame per chunk, they give the same increments, after three reads.
\<close>

theorem concrete_scenario:
  "streamAIResponse JSON_parse never_cancelled
     (Resolved \<lparr>ok = True, status = 200, statusText = js ''OK'',
        body = Some [Chunk (bytes ''data: {\"choices\":[{\"delta\":{\"content\":\"Hel\"}}]}\<newline>\<newline>data: {\"choices\":[{\"delta\":{\"content\":\"lo\"}}]}\<newline>\<newline>data: [DONE]\<newline>'')]\<rparr>)
   = (Inr (), \<lparr>sink = [JString (js ''Hel''), JString (js ''lo'')], warnings = 0, reads = 1, released = True\<rparr>)
   \<and> streamAIResponse JSON_parse never_cancelled
     (Resolved \<lparr>ok = True, status = 200, statusText = js ''OK'',
        body = Some [Chunk (bytes ''data: {\"choices\":[{\"delta\":{\"content\":\"Hel\"}}]}\<newline>\<newline>''),
                     Chunk (bytes ''data: {\"choices\":[{\"delta\":{\"content\":\"lo\"}}]}\<newline>\<newline>''),
                     Chunk (bytes ''data: [DONE]\<newline>'')]\<rparr>)
   = (Inr (), \<lparr>sink = [JString (js ''Hel''), JString (js ''lo'')], warnings = 0, reads = 3, released = True\<rparr>)"
  by (simp add: decoder_eval)

section \<open>A rejected request\<close>

text \<open>
  C4, as stated, fails: on a response that is not \<^verbatim>\<open>ok\<close> the function does not fail. The
  error it throws is caught by its own handler, which writes a notice to the sink; the
  caller gets a normal return and one call of the sink.
\<close>

theorem rejected_request_counterexample:
  "streamAIResponse JSON_parse never_cancelled
     (Resolved \<lparr>ok = False, status = 401, statusText = js ''Unauthorized'',
        body = Some [Chunk (bytes ''data: {\"choices\":[{\"delta\":{\"content\":\"Hel\"}}]}\<newline>'')]\<rparr>)
   = (Inr (), \<lparr>sink = [JString (js ''Failed to get response from AI service: AI service returned 401: Unauthorized'')],
              warnings = 0, reads = 0, released = False\<rparr>)"
  by (simp add: decoder_eval show_nat.simps)

text \<open>
  C4, as the code has it. For every response that is not \<^verbatim>\<open>ok\<close>, nothing is read from the
  body and no reader is acquired; the function returns normally, and the only call of the
  sink is the notice that carries the status and the status text.
\<close>

theorem rejected_request_reported:
  assumes "\<not> ok r"
  shows "streamAIResponse parse token (Resolved r)
       = (Inr (), \<lparr>sink = [JString (js ''Failed to get response from AI service: ''
                               @ js ''AI service returned '' @ show_nat (status r) @ js '': ''
                               @ statusText r)],
                  warnings = 0, reads = 0, released = False\<rparr>)"
  using assms by (simp add: streamAIResponse_def stream_try_def initial_def markdown_def)

theorem rejected_request_reported_witness:
  "streamAIResponse JSON_parse never_cancelled
        (Resolved \<lparr>ok = False, status = 503, statusText = js ''Service Unavailable'', body = Some [Chunk (bytes ''data: 1'')]\<rparr>)
     = (Inr (), \<lparr>sink = [JString (js ''Failed to get response from AI service: AI service returned 503: Service Unavailable'')],
                warnings = 0, reads = 0, released = False\<rparr>)"
proof -
  have h: "\<not> ok \<lparr>ok = False, status = 503, statusText = js ''Service Unavailable'', body = Some [Chunk (bytes ''data: 1'')]\<rparr>"
    by simp
  show ?thesis
    using h rejected_request_reported [OF h, of JSON_parse never_cancelled]
    by (simp add: js_def show_nat.simps)
qed

section \<open>One frame\<close>

lemma startsWith_append: "startsWith (p @ s) p"
  by (simp add: startsWith_def)

lemma length_data_prefix: "length (js ''data: '') = 6"
  by (simp add: js_def)

lemma process_line_data:
  "process_line parse (js ''data: '' @ data) st =
     (if data = js ''[DONE]'' then (Return, st) else (Continue, process_data parse data st))"
  by (simp add: process_line_def startsWith_append slice_def Let_def) (simp add: js_def)

lemma process_line_Return_iff:
  "fst (process_line parse line st) = Return \<longleftrightarrow> line = js ''data: [DONE]''"
proof
  assume "fst (process_line parse line st) = Return"
  then have p: "take 6 line = js ''data: ''" and d: "drop 6 line = js ''[DONE]''"
    by (auto simp: process_line_def startsWith_def slice_def Let_def length_data_prefix split: if_splits)
  have "line = take 6 line @ drop 6 line" by simp
  also have "\<dots> = js ''data: [DONE]''" by (simp only: p d) (simp add: js_def)
  finally show "line = js ''data: [DONE]''" .
next
  assume "line = js ''data: [DONE]''"
  then show "fst (process_line parse line st) = Return"
    by (simp add: process_line_def startsWith_def slice_def js_def)
qed

lemma trim_eq_Nil_iff: "trim s = [] \<longleftrightarrow> (\<forall>c \<in> set s. is_whitespace c)"
proof -
  have "trim s = [] \<longleftrightarrow> (\<forall>c \<in> set (dropWhile is_whitespace s). is_whitespace c)"
    by (simp add: trim_def dropWhile_eq_Nil_conv)
  also have "\<dots> \<longleftrightarrow> dropWhile is_whitespace s = []"
  proof
    assume all: "\<forall>c \<in> set (dropWhile is_whitespace s). is_whitespace c"
    show "dropWhile is_whitespace s = []"
    proof (rule ccontr)
      assume ne: "dropWhile is_whitespace s \<noteq> []"
      then have "\<not> is_whitespace (hd (dropWhile is_whitespace s))"
        by (rule hd_dropWhile)
      moreover from ne have "hd (dropWhile is_whitespace s) \<in> set (dropWhile is_whitespace s)"
        by simp
      ultimately show False using all by blast
    qed
  next
    assume e: "dropWhile is_whitespace s = []"
    show "\<forall>c \<in> set (dropWhile is_whitespace s). is_whitespace c"
      unfolding e by simp
  qed
  also have "\<dots> \<longleftrightarrow> (\<forall>c \<in> set s. is_whitespace c)"
    by (rule dropWhile_eq_Nil_conv)
  finally show ?thesis .
qed

lemma chunk_lines_single:
  assumes "10 \<notin> set line" and "\<exists>c \<in> set line. \<not> is_whitespace c"
  shows "chunk_lines line = [line]"
  using assms by (simp add: chunk_lines_def js_split_no_sep trim_eq_Nil_iff)

lemma chunk_lines_data_line:
  assumes "10 \<notin> set data" and "a = [] \<or> last a = 10"
  shows "chunk_lines (a @ js ''data: '' @ data @ 10 # b)
       = chunk_lines a @ (js ''data: '' @ data) # chunk_lines b"
proof -
  have d: "\<not> is_whitespace 100" by (simp add: is_whitespace_def)
  have "100 \<in> set (js ''data: '' @ data)" by (simp add: js_def)
  with d have ne: "\<exists>c \<in> set (js ''data: '' @ data). \<not> is_whitespace c" by blast
  have "10 \<notin> set (js ''data: '' @ data)" using assms(1) by (simp add: js_def)
  then have one: "chunk_lines (js ''data: '' @ data) = [js ''data: '' @ data]"
    using ne by (rule chunk_lines_single)
  have "chunk_lines (a @ js ''data: '' @ data @ 10 # b)
      = chunk_lines a @ chunk_lines ((js ''data: '' @ data) @ 10 # b)"
    using assms(2) by (simp add: chunk_lines_append)
  also have "chunk_lines ((js ''data: '' @ data) @ 10 # b)
      = chunk_lines (js ''data: '' @ data) @ chunk_lines b"
    by (rule chunk_lines_append_sep)
  finally show ?thesis by (simp add: one)
qed

section \<open>Zero-length increments\<close>

lemma read_loop_skip_chunk:
  assumes "\<not> token i"
    and "\<And>s. process_lines parse (chunk_lines (TextDecoder_decode c)) s = (Continue, s)"
  shows "read_loop parse token i (Chunk c # rest) st
       = read_loop parse token (Suc i) rest (st\<lparr>reads := Suc (reads st)\<rparr>)"
  using assms by simp

text \<open>
  C9. A frame whose payload parses and whose extracted content is the empty string changes
  nothing: no call of the sink, no warning, no return. In a sequence of frames it can be
  left out without any effect on the result, so the frames after it are decoded as before.
  The same holds in a stream: a chunk of any stream gives the same result with and without
  such a frame among its lines, whatever the chunks before and after it. And the loop goes
  on after it: when a chunk holds nothing but such a frame and no cancellation is seen at
  the check before its read, the read is counted and the loop continues, at the next check
  of the token, with the chunks that follow.
\<close>

theorem empty_content_suppressed:
  assumes "parse data = Some parsed"
    and "delta_content parsed = Inr (Some (JString []))"
    and "data \<noteq> js ''[DONE]''"
    and "10 \<notin> set data" and "a = [] \<or> last a = 10"
    and "TextDecoder_decode v = a @ js ''data: '' @ data @ 10 # b"
    and "TextDecoder_decode v' = a @ b"
    and "TextDecoder_decode only = js ''data: '' @ data @ [10]"
    and "\<not> token i"
  shows "process_line parse (js ''data: '' @ data) st = (Continue, st)
       \<and> process_lines parse (pre @ (js ''data: '' @ data) # post) st
           = process_lines parse (pre @ post) st
       \<and> streamAIResponse parse token' (Resolved (r\<lparr>ok := True, body := Some (before @ Chunk v # rest')\<rparr>))
           = streamAIResponse parse token' (Resolved (r\<lparr>ok := True, body := Some (before @ Chunk v' # rest')\<rparr>))
       \<and> read_loop parse token i (Chunk only # rest) st
           = read_loop parse token (Suc i) rest (st\<lparr>reads := Suc (reads st)\<rparr>)"
proof -
  have one: "process_line parse (js ''data: '' @ data) s = (Continue, s)" for s
    using assms(1-3) by (simp add: process_line_data process_data_def)
  have without: "process_lines parse (xs @ (js ''data: '' @ data) # ys) s
          = process_lines parse (xs @ ys) s" for xs ys s
    by (simp add: process_lines_append one split: prod.splits flow.splits)
  have e1: "chunk_lines (a @ js ''data: '' @ data @ 10 # b)
      = chunk_lines a @ (js ''data: '' @ data) # chunk_lines b"
    by (rule chunk_lines_data_line [OF assms(4,5)])
  have e2: "chunk_lines (a @ b) = chunk_lines a @ chunk_lines b"
    by (rule chunk_lines_append [OF assms(5)])
  have "process_lines parse (chunk_lines (TextDecoder_decode v)) s
      = process_lines parse (chunk_lines (TextDecoder_decode v')) s" for s
    unfolding assms(6,7) e1 e2 by (rule without)
  then have stream: "streamAIResponse parse token' (Resolved (r\<lparr>ok := True, body := Some (before @ Chunk v # rest')\<rparr>))
           = streamAIResponse parse token' (Resolved (r\<lparr>ok := True, body := Some (before @ Chunk v' # rest')\<rparr>))"
    by (rule streamAIResponse_replace_chunk)
  have "chunk_lines ([] @ js ''data: '' @ data @ 10 # []) = chunk_lines [] @ (js ''data: '' @ data) # chunk_lines []"
    by (rule chunk_lines_data_line [OF assms(4)]) simp
  then have "chunk_lines (TextDecoder_decode only) = [js ''data: '' @ data]"
    by (simp add: assms(8) chunk_lines_Nil)
  then have "process_lines parse (chunk_lines (TextDecoder_decode only)) s = (Continue, s)" for s
    by (simp add: one)
  with assms(9) have "read_loop parse token i (Chunk only # rest) st
           = read_loop parse token (Suc i) rest (st\<lparr>reads := Suc (reads st)\<rparr>)"
    by (rule read_loop_skip_chunk)
  with one without stream show ?thesis by simp
qed

theorem empty_content_suppressed_witness:
  "JSON_parse (js ''{\"choices\":[{\"delta\":{\"content\":\"\"}}]}'')
     = Some (JObject [(js ''choices'', JArray [JObject [(js ''delta'', JObject [(js ''content'', JString [])])]])])
   \<and> streamAIResponse JSON_parse never_cancelled
        (Resolved \<lparr>ok = True, status = 200, statusText = js ''OK'',
           body = Some [Chunk (bytes ''data: {\"choices\":[{\"delta\":{\"content\":\"a\"}}]}\<newline>data: {\"choices\":[{\"delta\":{\"content\":\"\"}}]}\<newline>data: {\"choices\":[{\"delta\":{\"content\":\"b\"}}]}\<newline>''),
                        Chunk (bytes ''data: {\"choices\":[{\"delta\":{\"content\":\"\"}}]}\<newline>''),
                        Chunk (bytes ''data: {\"choices\":[{\"delta\":{\"content\":\"c\"}}]}\<newline>'')]\<rparr>)
     = streamAIResponse JSON_parse never_cancelled
        (Resolved \<lparr>ok = True, status = 200, statusText = js ''OK'',
           body = Some [Chunk (bytes ''data: {\"choices\":[{\"delta\":{\"content\":\"a\"}}]}\<newline>data: {\"choices\":[{\"delta\":{\"content\":\"b\"}}]}\<newline>''),
                        Chunk (bytes ''data: {\"choices\":[{\"delta\":{\"content\":\"\"}}]}\<newline>''),
                        Chunk (bytes ''data: {\"choices\":[{\"delta\":{\"content\":\"c\"}}]}\<newline>'')]\<rparr>)
   \<and> streamAIResponse JSON_parse never_cancelled
        (Resolved \<lparr>ok = True, status = 200, statusText = js ''OK'',
           body = Some [Chunk (bytes ''data: {\"choices\":[{\"delta\":{\"content\":\"a\"}}]}\<newline>data: {\"choices\":[{\"delta\":{\"content\":\"\"}}]}\<newline>data: {\"choices\":[{\"delta\":{\"content\":\"b\"}}]}\<newline>''),
                        Chunk (bytes ''data: {\"choices\":[{\"delta\":{\"content\":\"\"}}]}\<newline>''),
                        Chunk (bytes ''data: {\"choices\":[{\"delta\":{\"content\":\"c\"}}]}\<newline>'')]\<rparr>)
     = (Inr (), \<lparr>sink = [JString (js ''a''), JString (js ''b''), JString (js ''c'')],
                 warnings = 0, reads = 4, released = True\<rparr>)
   \<and> read_loop JSON_parse never_cancelled 0
        [Chunk (bytes ''data: {\"choices\":[{\"delta\":{\"content\":\"\"}}]}\<newline>''),
         Chunk (bytes ''data: {\"choices\":[{\"delta\":{\"content\":\"c\"}}]}\<newline>'')] initial
     = read_loop JSON_parse never_cancelled 1
        [Chunk (bytes ''data: {\"choices\":[{\"delta\":{\"content\":\"c\"}}]}\<newline>'')]
        \<lparr>sink = [], warnings = 0, reads = 1, released = False\<rparr>
   \<and> read_loop JSON_parse never_cancelled 0
        [Chunk (bytes ''data: {\"choices\":[{\"delta\":{\"content\":\"\"}}]}\<newline>''),
         Chunk (bytes ''data: {\"choices\":[{\"delta\":{\"content\":\"c\"}}]}\<newline>'')] initial
     = (Inr (), \<lparr>sink = [JString (js ''c'')], warnings = 0, reads = 3, released = False\<rparr>)"
proof -
  let ?data = "js ''{\"choices\":[{\"delta\":{\"content\":\"\"}}]}''"
  let ?parsed = "JObject [(js ''choices'', JArray [JObject [(js ''delta'', JObject [(js ''content'', JString [])])]])]"
  let ?a = "js ''data: {\"choices\":[{\"delta\":{\"content\":\"a\"}}]}\<newline>''"
  let ?b = "js ''data: {\"choices\":[{\"delta\":{\"content\":\"b\"}}]}\<newline>''"
  let ?v = "bytes ''data: {\"choices\":[{\"delta\":{\"content\":\"a\"}}]}\<newline>data: {\"choices\":[{\"delta\":{\"content\":\"\"}}]}\<newline>data: {\"choices\":[{\"delta\":{\"content\":\"b\"}}]}\<newline>''"
  let ?v' = "bytes ''data: {\"choices\":[{\"delta\":{\"content\":\"a\"}}]}\<newline>data: {\"choices\":[{\"delta\":{\"content\":\"b\"}}]}\<newline>''"
  let ?only = "bytes ''data: {\"choices\":[{\"delta\":{\"content\":\"\"}}]}\<newline>''"
  let ?c = "bytes ''data: {\"choices\":[{\"delta\":{\"content\":\"c\"}}]}\<newline>''"
  have h1: "JSON_parse ?data = Some ?parsed"
    by (simp add: decoder_eval)
  have h2: "delta_content ?parsed = Inr (Some (JString []))"
    by (simp add: decoder_eval)
  have h3: "?data \<noteq> js ''[DONE]''"
    by (simp add: js_def)
  have h4: "10 \<notin> set ?data"
    by (simp add: js_def)
  have h5: "?a = [] \<or> last ?a = 10"
    by (simp add: js_def)
  have h6: "TextDecoder_decode ?v = ?a @ js ''data: '' @ ?data @ 10 # ?b"
    by (simp add: decoder_eval)
  have h7: "TextDecoder_decode ?v' = ?a @ ?b"
    by (simp add: decoder_eval)
  have h8: "TextDecoder_decode ?only = js ''data: '' @ ?data @ [10]"
    by (simp add: decoder_eval)
  have h9: "\<not> never_cancelled 0"
    by (simp add: never_cancelled_def)
  have run: "streamAIResponse JSON_parse never_cancelled
        (Resolved \<lparr>ok = True, status = 200, statusText = js ''OK'',
           body = Some [Chunk ?v, Chunk ?only, Chunk ?c]\<rparr>)
     = (Inr (), \<lparr>sink = [JString (js ''a''), JString (js ''b''), JString (js ''c'')],
                 warnings = 0, reads = 4, released = True\<rparr>)"
    by (simp add: decoder_eval)
  have loop: "read_loop JSON_parse never_cancelled 0 [Chunk ?only, Chunk ?c] initial
     = (Inr (), \<lparr>sink = [JString (js ''c'')], warnings = 0, reads = 3, released = False\<rparr>)"
    by (simp add: decoder_eval)
  from empty_content_suppressed [where parse = JSON_parse and data = ?data and parsed = ?parsed
      and a = ?a and b = ?b and v = ?v and v' = ?v' and only = ?only
      and token = never_cancelled and i = 0 and token' = never_cancelled
      and r = "\<lparr>ok = True, status = 200, statusText = js ''OK'', body = None\<rparr>"
      and before = "[]" and rest' = "[Chunk ?only, Chunk ?c]"
      and rest = "[Chunk ?c]" and st = initial,
      OF h1 h2 h3 h4 h5 h6 h7 h8 h9]
  have "streamAIResponse JSON_parse never_cancelled
        (Resolved \<lparr>ok = True, status = 200, statusText = js ''OK'',
           body = Some [Chunk ?v, Chunk ?only, Chunk ?c]\<rparr>)
     = streamAIResponse JSON_parse never_cancelled
        (Resolved \<lparr>ok = True, status = 200, statusText = js ''OK'',
           body = Some [Chunk ?v', Chunk ?only, Chunk ?c]\<rparr>)"
    and "read_loop JSON_parse never_cancelled 0 [Chunk ?only, Chunk ?c] initial
     = read_loop JSON_parse never_cancelled 1 [Chunk ?c]
        \<lparr>sink = [], warnings = 0, reads = 1, released = False\<rparr>"
    by (simp_all add: initial_def)
  then show ?thesis
    using h1 run loop by simp
qed

section \<open>Payloads without the content path\<close>





section \<open>The sentinel\<close>

lemma process_lines_sentinel:
  "process_lines parse (pre @ js ''data: [DONE]'' # post) st = (Return, snd (process_lines parse pre st))"
proof -
  have "process_line parse (js ''data: [DONE]'') s = (Return, s)" for s
    by (simp add: process_line_def startsWith_def slice_def js_def)
  then show ?thesis
    by (simp add: process_lines_append split: prod.splits flow.splits)
qed

lemma process_lines_Return:
  assumes "js ''data: [DONE]'' \<in> set ls"
  shows "fst (process_lines parse ls st) = Return"
proof -
  from assms obtain pre post where "ls = pre @ js ''data: [DONE]'' # post"
    by (auto simp: in_set_conv_decomp)
  then show ?thesis by (simp add: process_lines_sentinel)
qed

lemma process_lines_Continue:
  assumes "js ''data: [DONE]'' \<notin> set ls"
  shows "fst (process_lines parse ls st) = Continue"
  using assms
proof (induction ls arbitrary: st)
  case Nil
  then show ?case by simp
next
  case (Cons l ls)
  then have "fst (process_line parse l st) \<noteq> Return"
    by (auto simp: process_line_Return_iff)
  then obtain st' where "process_line parse l st = (Continue, st')"
    by (cases "process_line parse l st") (metis flow.exhaust fst_conv)
  with Cons show ?case by simp
qed

lemma reads_process_line: "reads (snd (process_line parse l st)) = reads st"
  by (simp add: process_line_def process_data_def warn_def markdown_def Let_def
      split: option.splits sum.splits)

lemma reads_process_lines: "reads (snd (process_lines parse ls st)) = reads st"
proof (induction ls arbitrary: st)
  case Nil
  then show ?case by simp
next
  case (Cons l ls)
  obtain f st' where p: "process_line parse l st = (f, st')"
    by (cases "process_line parse l st")
  with reads_process_line [of parse l st] have "reads st' = reads st" by simp
  with p Cons.IH [of st'] show ?case by (cases f) simp_all
qed

lemma read_loop_sentinel_chunk:
  assumes "js ''data: [DONE]'' \<in> set (chunk_lines (TextDecoder_decode c))"
  shows "read_loop parse token i (before @ Chunk c # rest) st
       = read_loop parse token i (before @ [Chunk c]) st"
proof (induction before arbitrary: i st)
  case Nil
  obtain f st' where p: "process_lines parse (chunk_lines (TextDecoder_decode c)) (st\<lparr>reads := Suc (reads st)\<rparr>) = (f, st')"
    by (cases "process_lines parse (chunk_lines (TextDecoder_decode c)) (st\<lparr>reads := Suc (reads st)\<rparr>)")
  with process_lines_Return [OF assms, of parse "st\<lparr>reads := Suc (reads st)\<rparr>"] have "f = Return"
    by simp
  with p show ?case by simp
next
  case (Cons x before)
  then show ?case
    by (cases x) (simp_all split: prod.splits flow.splits)
qed

lemma reads_read_loop_sentinel_chunk:
  assumes "js ''data: [DONE]'' \<in> set (chunk_lines (TextDecoder_decode c))"
  shows "reads (snd (read_loop parse token i (before @ [Chunk c]) st)) \<le> reads st + Suc (length before)"
proof (induction before arbitrary: i st)
  case Nil
  obtain f st' where p: "process_lines parse (chunk_lines (TextDecoder_decode c)) (st\<lparr>reads := Suc (reads st)\<rparr>) = (f, st')"
    by (cases "process_lines parse (chunk_lines (TextDecoder_decode c)) (st\<lparr>reads := Suc (reads st)\<rparr>)")
  with process_lines_Return [OF assms, of parse "st\<lparr>reads := Suc (reads st)\<rparr>"] have "f = Return"
    by simp
  with p reads_process_lines [of parse "chunk_lines (TextDecoder_decode c)" "st\<lparr>reads := Suc (reads st)\<rparr>"]
  show ?case by simp
next
  case (Cons x before)
  show ?case
  proof (cases x)
    case (Failure msg)
    then show ?thesis by simp
  next
    case (Chunk d)
    obtain f st' where p: "process_lines parse (chunk_lines (TextDecoder_decode d)) (st\<lparr>reads := Suc (reads st)\<rparr>) = (f, st')"
      by (cases "process_lines parse (chunk_lines (TextDecoder_decode d)) (st\<lparr>reads := Suc (reads st)\<rparr>)")
    with reads_process_lines [of parse "chunk_lines (TextDecoder_decode d)" "st\<lparr>reads := Suc (reads st)\<rparr>"]
    have r: "reads st' = Suc (reads st)" by simp
    show ?thesis
    proof (cases f)
      case Continue
      with Chunk p r Cons.IH [of "Suc i" st'] show ?thesis by simp
    next
      case Return
      with Chunk p r show ?thesis by simp
    qed
  qed
qed

lemma reads_streamAIResponse:
  assumes "ok r" and "body r = Some b"
  shows "reads (snd (streamAIResponse parse token (Resolved r)))
       = reads (snd (read_loop parse token 0 b initial))"
  using assms
  by (simp add: streamAIResponse_streaming markdown_def split: prod.splits sum.splits error.splits)

text \<open>
  C2. The frame \<^verbatim>\<open>data: [DONE]\<close> ends the decoding at once. Among the frames of a chunk,
  whatever follows the sentinel has no effect: the result is that of the frames before it.
  In a stream, a chunk that holds the sentinel is the last one read: the chunks after it
  have no effect on the result, and the number of reads is at most the number of chunks up
  to and including it.
\<close>

theorem sentinel_stops_decoding:
  assumes "js ''data: [DONE]'' \<in> set (chunk_lines (TextDecoder_decode c))"
  shows "process_lines parse (pre @ js ''data: [DONE]'' # post) st
           = (Return, snd (process_lines parse pre st))
       \<and> streamAIResponse parse token (Resolved (r\<lparr>ok := True, body := Some (before @ Chunk c # rest)\<rparr>))
           = streamAIResponse parse token (Resolved (r\<lparr>ok := True, body := Some (before @ [Chunk c])\<rparr>))
       \<and> reads (snd (streamAIResponse parse token
             (Resolved (r\<lparr>ok := True, body := Some (before @ Chunk c # rest)\<rparr>))))
           \<le> Suc (length before)"
proof -
  have same: "read_loop parse token 0 (before @ Chunk c # rest) initial
      = read_loop parse token 0 (before @ [Chunk c]) initial"
    using assms by (rule read_loop_sentinel_chunk)
  have "reads (snd (read_loop parse token 0 (before @ [Chunk c]) initial)) \<le> Suc (length before)"
    using reads_read_loop_sentinel_chunk [OF assms, of parse token 0 before initial]
    by (simp add: initial_def)
  with same have "reads (snd (streamAIResponse parse token
             (Resolved (r\<lparr>ok := True, body := Some (before @ Chunk c # rest)\<rparr>)))) \<le> Suc (length before)"
    by (simp add: reads_streamAIResponse)
  moreover have "streamAIResponse parse token (Resolved (r\<lparr>ok := True, body := Some (before @ Chunk c # rest)\<rparr>))
           = streamAIResponse parse token (Resolved (r\<lparr>ok := True, body := Some (before @ [Chunk c])\<rparr>))"
    using same by (simp add: streamAIResponse_cong)
  ultimately show ?thesis
    by (simp add: process_lines_sentinel)
qed

theorem sentinel_stops_decoding_witness:
  "streamAIResponse JSON_parse never_cancelled
     (Resolved \<lparr>ok = True, status = 200, statusText = js ''OK'',
        body = Some [Chunk (bytes ''data: {\"choices\":[{\"delta\":{\"content\":\"a\"}}]}\<newline>''),
                     Chunk (bytes ''data: {\"choices\":[{\"delta\":{\"content\":\"b\"}}]}\<newline>data: [DONE]\<newline>data: {\"choices\":[{\"delta\":{\"content\":\"c\"}}]}\<newline>''),
                     Chunk (bytes ''data: {\"choices\":[{\"delta\":{\"content\":\"d\"}}]}\<newline>'')]\<rparr>)
   = streamAIResponse JSON_parse never_cancelled
     (Resolved \<lparr>ok = True, status = 200, statusText = js ''OK'',
        body = Some [Chunk (bytes ''data: {\"choices\":[{\"delta\":{\"content\":\"a\"}}]}\<newline>''),
                     Chunk (bytes ''data: {\"choices\":[{\"delta\":{\"content\":\"b\"}}]}\<newline>data: [DONE]\<newline>data: {\"choices\":[{\"delta\":{\"content\":\"c\"}}]}\<newline>'')]\<rparr>)
   \<and> streamAIResponse JSON_parse never_cancelled
     (Resolved \<lparr>ok = True, status = 200, statusText = js ''OK'',
        body = Some [Chunk (bytes ''data: {\"choices\":[{\"delta\":{\"content\":\"a\"}}]}\<newline>''),
                     Chunk (bytes ''data: {\"choices\":[{\"delta\":{\"content\":\"b\"}}]}\<newline>data: [DONE]\<newline>data: {\"choices\":[{\"delta\":{\"content\":\"c\"}}]}\<newline>''),
                     Chunk (bytes ''data: {\"choices\":[{\"delta\":{\"content\":\"d\"}}]}\<newline>'')]\<rparr>)
   = (Inr (), \<lparr>sink = [JString (js ''a''), JString (js ''b'')], warnings = 0, reads = 2, released = True\<rparr>)"
proof -
  let ?c = "bytes ''data: {\"choices\":[{\"delta\":{\"content\":\"b\"}}]}\<newline>data: [DONE]\<newline>data: {\"choices\":[{\"delta\":{\"content\":\"c\"}}]}\<newline>''"
  have h: "js ''data: [DONE]'' \<in> set (chunk_lines (TextDecoder_decode ?c))"
    by (simp add: decoder_eval)
  have run: "streamAIResponse JSON_parse never_cancelled
     (Resolved \<lparr>ok = True, status = 200, statusText = js ''OK'',
        body = Some [Chunk (bytes ''data: {\"choices\":[{\"delta\":{\"content\":\"a\"}}]}\<newline>''),
                     Chunk ?c,
                     Chunk (bytes ''data: {\"choices\":[{\"delta\":{\"content\":\"d\"}}]}\<newline>'')]\<rparr>)
   = (Inr (), \<lparr>sink = [JString (js ''a''), JString (js ''b'')], warnings = 0, reads = 2, released = True\<rparr>)"
    by (simp add: decoder_eval)
  from sentinel_stops_decoding [OF h, where parse = JSON_parse and token = never_cancelled
      and r = "\<lparr>ok = True, status = 200, statusText = js ''OK'', body = None\<rparr>"
      and before = "[Chunk (bytes ''data: {\"choices\":[{\"delta\":{\"content\":\"a\"}}]}\<newline>'')]"
      and rest = "[Chunk (bytes ''data: {\"choices\":[{\"delta\":{\"content\":\"d\"}}]}\<newline>'')]"]
  have "streamAIResponse JSON_parse never_cancelled
     (Resolved \<lparr>ok = True, status = 200, statusText = js ''OK'',
        body = Some [Chunk (bytes ''data: {\"choices\":[{\"delta\":{\"content\":\"a\"}}]}\<newline>''),
                     Chunk ?c,
                     Chunk (bytes ''data: {\"choices\":[{\"delta\":{\"content\":\"d\"}}]}\<newline>'')]\<rparr>)
   = streamAIResponse JSON_parse never_cancelled
     (Resolved \<lparr>ok = True, status = 200, statusText = js ''OK'',
        body = Some [Chunk (bytes ''data: {\"choices\":[{\"delta\":{\"content\":\"a\"}}]}\<newline>''),
                     Chunk ?c]\<rparr>)"
    by simp
  with run show ?thesis by simp
qed

section \<open>A failure of the transport while decoding\<close>

lemma read_loop_failure:
  assumes "\<forall>k \<le> length cs. \<not> token (i + k)"
    and "\<forall>c \<in> set cs. js ''data: [DONE]'' \<notin> set (chunk_lines (TextDecoder_decode c))"
  shows "read_loop parse token i (map Chunk cs @ Failure msg # rest) st
       = (Inl (Error msg), snd (read_loop parse token i (map Chunk cs) st))"
  using assms
proof (induction cs arbitrary: i st)
  case Nil
  then show ?case by simp
next
  case (Cons c cs)
  from Cons.prems(1) have t0: "\<not> token i" and tn: "\<forall>k \<le> length cs. \<not> token (Suc i + k)"
    by force+
  from Cons.prems(2) have c: "js ''data: [DONE]'' \<notin> set (chunk_lines (TextDecoder_decode c))"
    and cs: "\<forall>c \<in> set cs. js ''data: [DONE]'' \<notin> set (chunk_lines (TextDecoder_decode c))"
    by simp_all
  obtain f st' where p: "process_lines parse (chunk_lines (TextDecoder_decode c)) (st\<lparr>reads := Suc (reads st)\<rparr>) = (f, st')"
    by (cases "process_lines parse (chunk_lines (TextDecoder_decode c)) (st\<lparr>reads := Suc (reads st)\<rparr>)")
  with process_lines_Continue [OF c, of parse "st\<lparr>reads := Suc (reads st)\<rparr>"] have "f = Continue"
    by simp
  with p t0 Cons.IH [OF tn cs, of st'] show ?case by simp
qed

lemma reads_read_loop_chunks:
  assumes "\<forall>k \<le> length cs. \<not> token (i + k)"
    and "\<forall>c \<in> set cs. js ''data: [DONE]'' \<notin> set (chunk_lines (TextDecoder_decode c))"
  shows "reads (snd (read_loop parse token i (map Chunk cs) st)) = reads st + Suc (length cs)"
  using assms
proof (induction cs arbitrary: i st)
  case Nil
  then show ?case by simp
next
  case (Cons c cs)
  from Cons.prems(1) have t0: "\<not> token i" and tn: "\<forall>k \<le> length cs. \<not> token (Suc i + k)"
    by force+
  from Cons.prems(2) have c: "js ''data: [DONE]'' \<notin> set (chunk_lines (TextDecoder_decode c))"
    and cs: "\<forall>c \<in> set cs. js ''data: [DONE]'' \<notin> set (chunk_lines (TextDecoder_decode c))"
    by simp_all
  obtain f st' where p: "process_lines parse (chunk_lines (TextDecoder_decode c)) (st\<lparr>reads := Suc (reads st)\<rparr>) = (f, st')"
    by (cases "process_lines parse (chunk_lines (TextDecoder_decode c)) (st\<lparr>reads := Suc (reads st)\<rparr>)")
  with process_lines_Continue [OF c, of parse "st\<lparr>reads := Suc (reads st)\<rparr>"] have f: "f = Continue"
    by simp
  from p reads_process_lines [of parse "chunk_lines (TextDecoder_decode c)" "st\<lparr>reads := Suc (reads st)\<rparr>"]
  have "reads st' = Suc (reads st)" by simp
  with f p t0 Cons.IH [OF tn cs, of st'] show ?case by simp
qed

text \<open>
  C3, as stated, fails: a rejected read is not propagated to the caller. The function's
  own handler catches it and writes a notice to the sink, after the increments already
  delivered, and the function returns normally.
\<close>

theorem read_failure_counterexample:
  "streamAIResponse JSON_parse never_cancelled
     (Resolved \<lparr>ok = True, status = 200, statusText = js ''OK'',
        body = Some [Chunk (bytes ''data: {\"choices\":[{\"delta\":{\"content\":\"Hel\"}}]}\<newline>''),
                     Failure (js ''network error''),
                     Chunk (bytes ''data: {\"choices\":[{\"delta\":{\"content\":\"lo\"}}]}\<newline>'')]\<rparr>)
   = (Inr (), \<lparr>sink = [JString (js ''Hel''),
                        JString (js ''Failed to get response from AI service: network error'')],
              warnings = 0, reads = 2, released = True\<rparr>)"
  by (simp add: decoder_eval)

text \<open>
  C3, as the code has it. When a read is rejected after the chunks \<open>cs\<close> have been decoded
  (no cancellation seen, no sentinel among them), the function returns normally; its
  result is that of the stream that ends after \<open>cs\<close>, with the notice of the failure added
  to the sink after the increments already delivered. Nothing is read after the failed
  read: the reads are those of the chunks and the failed one.
\<close>

theorem read_failure_reported:
  assumes "\<forall>i \<le> length cs. \<not> token i"
    and "\<forall>c \<in> set cs. js ''data: [DONE]'' \<notin> set (chunk_lines (TextDecoder_decode c))"
  shows "streamAIResponse parse token
           (Resolved (r\<lparr>ok := True, body := Some (map Chunk cs @ Failure msg # rest)\<rparr>))
         = (Inr (), markdown (JString (js ''Failed to get response from AI service: '' @ msg))
                      (snd (streamAIResponse parse token
                         (Resolved (r\<lparr>ok := True, body := Some (map Chunk cs)\<rparr>)))))
       \<and> reads (snd (streamAIResponse parse token
           (Resolved (r\<lparr>ok := True, body := Some (map Chunk cs @ Failure msg # rest)\<rparr>))))
         = Suc (length cs)"
proof -
  have fail: "read_loop parse token 0 (map Chunk cs @ Failure msg # rest) initial
      = (Inl (Error msg), snd (read_loop parse token 0 (map Chunk cs) initial))"
    using assms by (simp add: read_loop_failure)
  have "reads (snd (read_loop parse token 0 (map Chunk cs) initial)) = Suc (length cs)"
    using assms reads_read_loop_chunks [of cs token 0 parse initial] by (simp add: initial_def)
  with fail have "reads (snd (streamAIResponse parse token
           (Resolved (r\<lparr>ok := True, body := Some (map Chunk cs @ Failure msg # rest)\<rparr>))))
         = Suc (length cs)"
    by (simp add: reads_streamAIResponse)
  moreover have "streamAIResponse parse token
           (Resolved (r\<lparr>ok := True, body := Some (map Chunk cs @ Failure msg # rest)\<rparr>))
         = (Inr (), markdown (JString (js ''Failed to get response from AI service: '' @ msg))
                      (snd (streamAIResponse parse token
                         (Resolved (r\<lparr>ok := True, body := Some (map Chunk cs)\<rparr>)))))"
    using fail
      streamAIResponse_chunks [of "r\<lparr>ok := True, body := Some (map Chunk cs)\<rparr>" cs parse token]
    by (simp add: streamAIResponse_streaming markdown_def)
  ultimately show ?thesis by simp
qed

theorem read_failure_reported_witness:
  "streamAIResponse JSON_parse never_cancelled
     (Resolved \<lparr>ok = True, status = 200, statusText = js ''OK'',
        body = Some [Chunk (bytes ''data: {\"choices\":[{\"delta\":{\"content\":\"a\"}}]}\<newline>''),
                     Chunk (bytes ''data: {\"choices\":[{\"delta\":{\"content\":\"b\"}}]}\<newline>''),
                     Failure (js ''connection reset''),
                     Chunk (bytes ''data: {\"choices\":[{\"delta\":{\"content\":\"c\"}}]}\<newline>'')]\<rparr>)
   = (Inr (), markdown (JString (js ''Failed to get response from AI service: connection reset''))
       (snd (streamAIResponse JSON_parse never_cancelled
         (Resolved \<lparr>ok = True, status = 200, statusText = js ''OK'',
            body = Some [Chunk (bytes ''data: {\"choices\":[{\"delta\":{\"content\":\"a\"}}]}\<newline>''),
                         Chunk (bytes ''data: {\"choices\":[{\"delta\":{\"content\":\"b\"}}]}\<newline>'')]\<rparr>))))
   \<and> snd (streamAIResponse JSON_parse never_cancelled
         (Resolved \<lparr>ok = True, status = 200, statusText = js ''OK'',
            body = Some [Chunk (bytes ''data: {\"choices\":[{\"delta\":{\"content\":\"a\"}}]}\<newline>''),
                         Chunk (bytes ''data: {\"choices\":[{\"delta\":{\"content\":\"b\"}}]}\<newline>'')]\<rparr>))
     = \<lparr>sink = [JString (js ''a''), JString (js ''b'')], warnings = 0, reads = 3, released = True\<rparr>"
proof -
  let ?cs = "[bytes ''data: {\"choices\":[{\"delta\":{\"content\":\"a\"}}]}\<newline>'',
              bytes ''data: {\"choices\":[{\"delta\":{\"content\":\"b\"}}]}\<newline>'']"
  have h1: "\<forall>i \<le> length ?cs. \<not> never_cancelled i"
    by (simp add: never_cancelled_def)
  have h2: "\<forall>c \<in> set ?cs. js ''data: [DONE]'' \<notin> set (chunk_lines (TextDecoder_decode c))"
    by (simp add: decoder_eval)
  have run: "snd (streamAIResponse JSON_parse never_cancelled
         (Resolved \<lparr>ok = True, status = 200, statusText = js ''OK'',
            body = Some [Chunk (bytes ''data: {\"choices\":[{\"delta\":{\"content\":\"a\"}}]}\<newline>''),
                         Chunk (bytes ''data: {\"choices\":[{\"delta\":{\"content\":\"b\"}}]}\<newline>'')]\<rparr>))
     = \<lparr>sink = [JString (js ''a''), JString (js ''b'')], warnings = 0, reads = 3, released = True\<rparr>"
    by (simp add: decoder_eval)
  from read_failure_reported [where token = never_cancelled and parse = JSON_parse
      and cs = ?cs
      and r = "\<lparr>ok = True, status = 200, statusText = js ''OK'', body = None\<rparr>"
      and msg = "js ''connection reset''"
      and rest = "[Chunk (bytes ''data: {\"choices\":[{\"delta\":{\"content\":\"c\"}}]}\<newline>'')]",
      OF h1 h2]
  have "streamAIResponse JSON_parse never_cancelled
     (Resolved \<lparr>ok = True, status = 200, statusText = js ''OK'',
        body = Some (map Chunk ?cs @ Failure (js ''connection reset'')
                 # [Chunk (bytes ''data: {\"choices\":[{\"delta\":{\"content\":\"c\"}}]}\<newline>'')])\<rparr>)
   = (Inr (), markdown (JString (js ''Failed to get response from AI service: '' @ js ''connection reset''))
       (snd (streamAIResponse JSON_parse never_cancelled
         (Resolved \<lparr>ok = True, status = 200, statusText = js ''OK'', body = Some (map Chunk ?cs)\<rparr>))))"
    by simp
  moreover have "js ''Failed to get response from AI service: '' @ js ''connection reset''
      = js ''Failed to get response from AI service: connection reset''"
    by (simp add: js_def)
  ultimately show ?thesis
    using run by simp
qed

section \<open>Cancellation\<close>

lemma read_loop_cancelled_at_once:
  assumes "token i"
  shows "read_loop parse token i b st = (Inr (), st)"
proof (cases b)
  case Nil
  with assms show ?thesis by simp
next
  case (Cons x b')
  with assms show ?thesis by (cases x) simp_all
qed

lemma read_loop_cancelled:
  assumes "\<forall>j < k. \<not> token (i + j)" and "token (i + k)" and "k \<le> length b"
  shows "fst (read_loop parse token i b st) = fst (read_loop parse never_cancelled i' (take k b) st)
       \<and> sink (snd (read_loop parse token i b st))
           = sink (snd (read_loop parse never_cancelled i' (take k b) st))
       \<and> warnings (snd (read_loop parse token i b st))
           = warnings (snd (read_loop parse never_cancelled i' (take k b) st))
       \<and> reads (snd (read_loop parse token i b st)) \<le> reads st + k"
  using assms
proof (induction k arbitrary: i i' b st)
  case 0
  then have "token i" by simp
  then have "read_loop parse token i b st = (Inr (), st)"
    by (rule read_loop_cancelled_at_once)
  then show ?case by (simp add: never_cancelled_def)
next
  case (Suc k)
  from Suc.prems(3) obtain x b' where b: "b = x # b'" and len: "k \<le> length b'"
    by (cases b) auto
  from Suc.prems(1) have t0: "\<not> token i" and tn: "\<forall>j < k. \<not> token (Suc i + j)"
    by force+
  from Suc.prems(2) have tk: "token (Suc i + k)" by simp
  show ?case
  proof (cases x)
    case (Failure msg)
    with b t0 show ?thesis by (simp add: never_cancelled_def)
  next
    case (Chunk c)
    obtain f st' where p: "process_lines parse (chunk_lines (TextDecoder_decode c)) (st\<lparr>reads := Suc (reads st)\<rparr>) = (f, st')"
      by (cases "process_lines parse (chunk_lines (TextDecoder_decode c)) (st\<lparr>reads := Suc (reads st)\<rparr>)")
    with reads_process_lines [of parse "chunk_lines (TextDecoder_decode c)" "st\<lparr>reads := Suc (reads st)\<rparr>"]
    have r: "reads st' = Suc (reads st)" by simp
    show ?thesis
    proof (cases f)
      case Continue
      with Chunk b t0 p r Suc.IH [OF tn tk len, where i' = "Suc i'" and st = st'] show ?thesis
        by (simp add: never_cancelled_def)
    next
      case Return
      with Chunk b t0 p r show ?thesis by (simp add: never_cancelled_def)
    qed
  qed
qed

lemma streamAIResponse_returns: "fst (streamAIResponse parse token fetched) = Inr ()"
  by (simp add: streamAIResponse_def split: prod.splits sum.splits error.splits)

lemma sink_streamAIResponse:
  assumes "ok r" and "body r = Some b"
  shows "sink (snd (streamAIResponse parse token (Resolved r)))
       = sink (snd (read_loop parse token 0 b initial))
         @ (case fst (read_loop parse token 0 b initial) of
              Inl (Error msg) \<Rightarrow> [JString (js ''Failed to get response from AI service: '' @ msg)]
            | Inr u \<Rightarrow> [])"
  using assms
  by (simp add: streamAIResponse_streaming markdown_def split: prod.splits sum.splits error.splits)

text \<open>
  C5, as stated, fails: a cancellation signaled before any chunk arrives does not always
  give an empty sequence. The token is read at the loop condition only. When the signal
  comes after the first check, while the first read is pending and no chunk has arrived,
  the read is not abandoned: the chunk it delivers is decoded in full, and the loop stops
  at the next check. Signaled before the first check, the same stream gives nothing.
\<close>

theorem cancellation_counterexample:
  "streamAIResponse JSON_parse (cancelled_from 1)
     (Resolved \<lparr>ok = True, status = 200, statusText = js ''OK'',
        body = Some [Chunk (bytes ''data: {\"choices\":[{\"delta\":{\"content\":\"Hel\"}}]}\<newline>''),
                     Chunk (bytes ''data: {\"choices\":[{\"delta\":{\"content\":\"lo\"}}]}\<newline>'')]\<rparr>)
   = (Inr (), \<lparr>sink = [JString (js ''Hel'')], warnings = 0, reads = 1, released = True\<rparr>)
   \<and> streamAIResponse JSON_parse (cancelled_from 0)
     (Resolved \<lparr>ok = True, status = 200, statusText = js ''OK'',
        body = Some [Chunk (bytes ''data: {\"choices\":[{\"delta\":{\"content\":\"Hel\"}}]}\<newline>''),
                     Chunk (bytes ''data: {\"choices\":[{\"delta\":{\"content\":\"lo\"}}]}\<newline>'')]\<rparr>)
   = (Inr (), \<lparr>sink = [], warnings = 0, reads = 0, released = True\<rparr>)"
  by (simp add: decoder_eval cancelled_from_def)

text \<open>
  C5, as the code has it. The token is read once before every read and nowhere else. When
  it is first seen set at the check before read number \<open>k\<close>, the sink has received exactly
  what a decoding without cancellation of the first \<open>k\<close> chunks delivers: each of them was
  decoded to its end, whatever the token became meanwhile (also the first chunk, when the
  signal came while its read was pending), and nothing of the later chunks is delivered
  or read. Only when the token is already set at the first check is nothing read and
  nothing delivered.
\<close>

theorem cancellation_between_chunks:
  assumes "\<forall>i < k. \<not> token i" and "token k" and "k \<le> length b"
  shows "sink (snd (streamAIResponse parse token (Resolved (r\<lparr>ok := True, body := Some b\<rparr>))))
           = sink (snd (streamAIResponse parse never_cancelled
               (Resolved (r\<lparr>ok := True, body := Some (take k b)\<rparr>))))
       \<and> reads (snd (streamAIResponse parse token (Resolved (r\<lparr>ok := True, body := Some b\<rparr>)))) \<le> k
       \<and> streamAIResponse parse (token(0 := True)) (Resolved (r\<lparr>ok := True, body := Some b\<rparr>))
           = (Inr (), \<lparr>sink = [], warnings = 0, reads = 0, released = True\<rparr>)"
proof -
  from read_loop_cancelled [of k token 0 b parse initial 0] assms
  have c: "fst (read_loop parse token 0 b initial) = fst (read_loop parse never_cancelled 0 (take k b) initial)"
    "sink (snd (read_loop parse token 0 b initial))
       = sink (snd (read_loop parse never_cancelled 0 (take k b) initial))"
    "reads (snd (read_loop parse token 0 b initial)) \<le> k"
    by (simp_all add: initial_def)
  have "read_loop parse (token(0 := True)) 0 b initial = (Inr (), initial)"
    by (simp add: read_loop_cancelled_at_once)
  then have "streamAIResponse parse (token(0 := True)) (Resolved (r\<lparr>ok := True, body := Some b\<rparr>))
           = (Inr (), \<lparr>sink = [], warnings = 0, reads = 0, released = True\<rparr>)"
    by (simp add: streamAIResponse_streaming initial_def)
  with c show ?thesis
    by (simp add: sink_streamAIResponse reads_streamAIResponse)
qed

theorem cancellation_between_chunks_witness:
  "sink (snd (streamAIResponse JSON_parse (cancelled_from 1)
     (Resolved \<lparr>ok = True, status = 200, statusText = js ''OK'',
        body = Some [Chunk (bytes ''data: {\"choices\":[{\"delta\":{\"content\":\"a\"}}]}\<newline>data: {\"choices\":[{\"delta\":{\"content\":\"b\"}}]}\<newline>''),
                     Chunk (bytes ''data: {\"choices\":[{\"delta\":{\"content\":\"c\"}}]}\<newline>'')]\<rparr>)))
   = sink (snd (streamAIResponse JSON_parse never_cancelled
     (Resolved \<lparr>ok = True, status = 200, statusText = js ''OK'',
        body = Some [Chunk (bytes ''data: {\"choices\":[{\"delta\":{\"content\":\"a\"}}]}\<newline>data: {\"choices\":[{\"delta\":{\"content\":\"b\"}}]}\<newline>'')]\<rparr>)))
   \<and> streamAIResponse JSON_parse (cancelled_from 1)
     (Resolved \<lparr>ok = True, status = 200, statusText = js ''OK'',
        body = Some [Chunk (bytes ''data: {\"choices\":[{\"delta\":{\"content\":\"a\"}}]}\<newline>data: {\"choices\":[{\"delta\":{\"content\":\"b\"}}]}\<newline>''),
                     Chunk (bytes ''data: {\"choices\":[{\"delta\":{\"content\":\"c\"}}]}\<newline>'')]\<rparr>)
   = (Inr (), \<lparr>sink = [JString (js ''a''), JString (js ''b'')], warnings = 0, reads = 1, released = True\<rparr>)"
proof -
  let ?b = "[Chunk (bytes ''data: {\"choices\":[{\"delta\":{\"content\":\"a\"}}]}\<newline>data: {\"choices\":[{\"delta\":{\"content\":\"b\"}}]}\<newline>''),
             Chunk (bytes ''data: {\"choices\":[{\"delta\":{\"content\":\"c\"}}]}\<newline>'')]"
  have h1: "\<forall>i < 1. \<not> cancelled_from 1 i"
    by (simp add: cancelled_from_def)
  have h2: "cancelled_from 1 1"
    by (simp add: cancelled_from_def)
  have h3: "1 \<le> length ?b"
    by simp
  have run: "streamAIResponse JSON_parse (cancelled_from 1)
     (Resolved \<lparr>ok = True, status = 200, statusText = js ''OK'', body = Some ?b\<rparr>)
   = (Inr (), \<lparr>sink = [JString (js ''a''), JString (js ''b'')], warnings = 0, reads = 1, released = True\<rparr>)"
    by (simp add: decoder_eval cancelled_from_def)
  from cancellation_between_chunks [where token = "cancelled_from 1" and k = 1 and b = ?b
      and parse = JSON_parse
      and r = "\<lparr>ok = True, status = 200, statusText = js ''OK'', body = None\<rparr>", OF h1 h2 h3]
  have "sink (snd (streamAIResponse JSON_parse (cancelled_from 1)
          (Resolved \<lparr>ok = True, status = 200, statusText = js ''OK'', body = Some ?b\<rparr>)))
      = sink (snd (streamAIResponse JSON_parse never_cancelled
          (Resolved \<lparr>ok = True, status = 200, statusText = js ''OK'', body = Some (take 1 ?b)\<rparr>)))"
    by simp
  with run show ?thesis by simp
qed

section \<open>Malformed frames\<close>

lemma same_output_refl: "same_output s s"
  by (simp add: same_output_def)

lemma same_output_process_line:
  assumes "same_output s t"
  shows "fst (process_line parse l s) = fst (process_line parse l t)
       \<and> same_output (snd (process_line parse l s)) (snd (process_line parse l t))"
  using assms
  by (simp add: process_line_def process_data_def same_output_def warn_def markdown_def Let_def
      split: option.splits sum.splits)

lemma same_output_process_lines:
  assumes "same_output s t"
  shows "fst (process_lines parse ls s) = fst (process_lines parse ls t)
       \<and> same_output (snd (process_lines parse ls s)) (snd (process_lines parse ls t))"
  using assms
proof (induction ls arbitrary: s t)
  case Nil
  then show ?case by simp
next
  case (Cons l ls)
  obtain f s' where ps: "process_line parse l s = (f, s')"
    by (cases "process_line parse l s")
  obtain g t' where pt: "process_line parse l t = (g, t')"
    by (cases "process_line parse l t")
  from same_output_process_line [OF Cons.prems, of parse l] ps pt
  have fg: "f = g" and st: "same_output s' t'" by simp_all
  show ?case
  proof (cases g)
    case Continue
    with ps pt fg Cons.IH [OF st] show ?thesis by simp
  next
    case Return
    with ps pt fg st show ?thesis by simp
  qed
qed

lemma same_output_reads:
  "same_output s t \<Longrightarrow> same_output (s\<lparr>reads := Suc (reads s)\<rparr>) (t\<lparr>reads := Suc (reads t)\<rparr>)"
  by (simp add: same_output_def)

lemma same_output_read_loop:
  assumes "same_output s t"
  shows "fst (read_loop parse token i b s) = fst (read_loop parse token i b t)
       \<and> same_output (snd (read_loop parse token i b s)) (snd (read_loop parse token i b t))"
  using assms
proof (induction b arbitrary: i s t)
  case Nil
  then show ?case by (simp add: same_output_reads)
next
  case (Cons x b)
  show ?case
  proof (cases x)
    case (Failure msg)
    with Cons.prems show ?thesis by (simp add: same_output_reads)
  next
    case (Chunk c)
    let ?s = "s\<lparr>reads := Suc (reads s)\<rparr>" and ?t = "t\<lparr>reads := Suc (reads t)\<rparr>"
    obtain f s' where ps: "process_lines parse (chunk_lines (TextDecoder_decode c)) ?s = (f, s')"
      by (cases "process_lines parse (chunk_lines (TextDecoder_decode c)) ?s")
    obtain g t' where pt: "process_lines parse (chunk_lines (TextDecoder_decode c)) ?t = (g, t')"
      by (cases "process_lines parse (chunk_lines (TextDecoder_decode c)) ?t")
    from same_output_process_lines [OF same_output_reads [OF Cons.prems], of parse "chunk_lines (TextDecoder_decode c)"] ps pt
    have fg: "f = g" and st: "same_output s' t'" by simp_all
    show ?thesis
    proof (cases g)
      case Continue
      with Chunk ps pt fg Cons.prems Cons.IH [OF st] show ?thesis by simp
    next
      case Return
      with Chunk ps pt fg st Cons.prems show ?thesis by simp
    qed
  qed
qed

lemma same_output_replace_chunk:
  assumes lines: "\<And>s t. same_output s t \<Longrightarrow>
      fst (process_lines parse (chunk_lines (TextDecoder_decode c)) s) = fst (process_lines parse (chunk_lines (TextDecoder_decode c')) t)
      \<and> same_output (snd (process_lines parse (chunk_lines (TextDecoder_decode c)) s)) (snd (process_lines parse (chunk_lines (TextDecoder_decode c')) t))"
    and "same_output s t"
  shows "fst (read_loop parse token i (before @ Chunk c # rest) s)
           = fst (read_loop parse token i (before @ Chunk c' # rest) t)
       \<and> same_output (snd (read_loop parse token i (before @ Chunk c # rest) s))
           (snd (read_loop parse token i (before @ Chunk c' # rest) t))"
  using assms(2)
proof (induction before arbitrary: i s t)
  case Nil
  let ?s = "s\<lparr>reads := Suc (reads s)\<rparr>" and ?t = "t\<lparr>reads := Suc (reads t)\<rparr>"
  obtain f s' where ps: "process_lines parse (chunk_lines (TextDecoder_decode c)) ?s = (f, s')"
    by (cases "process_lines parse (chunk_lines (TextDecoder_decode c)) ?s")
  obtain g t' where pt: "process_lines parse (chunk_lines (TextDecoder_decode c')) ?t = (g, t')"
    by (cases "process_lines parse (chunk_lines (TextDecoder_decode c')) ?t")
  from lines [OF same_output_reads [OF Nil.prems]] ps pt
  have fg: "f = g" and st: "same_output s' t'" by simp_all
  show ?case
  proof (cases g)
    case Continue
    with ps pt fg Nil.prems same_output_read_loop [OF st, of parse token "Suc i" rest]
    show ?thesis by simp
  next
    case Return
    with ps pt fg st Nil.prems show ?thesis by simp
  qed
next
  case (Cons x before)
  show ?case
  proof (cases x)
    case (Failure msg)
    with Cons.prems show ?thesis by (simp add: same_output_reads)
  next
    case (Chunk d)
    let ?s = "s\<lparr>reads := Suc (reads s)\<rparr>" and ?t = "t\<lparr>reads := Suc (reads t)\<rparr>"
    obtain f s' where ps: "process_lines parse (chunk_lines (TextDecoder_decode d)) ?s = (f, s')"
      by (cases "process_lines parse (chunk_lines (TextDecoder_decode d)) ?s")
    obtain g t' where pt: "process_lines parse (chunk_lines (TextDecoder_decode d)) ?t = (g, t')"
      by (cases "process_lines parse (chunk_lines (TextDecoder_decode d)) ?t")
    from same_output_process_lines [OF same_output_reads [OF Cons.prems], of parse "chunk_lines (TextDecoder_decode d)"] ps pt
    have fg: "f = g" and st: "same_output s' t'" by simp_all
    show ?thesis
    proof (cases g)
      case Continue
      with Chunk ps pt fg Cons.prems Cons.IH [OF st] show ?thesis by simp
    next
      case Return
      with Chunk ps pt fg st Cons.prems show ?thesis by simp
    qed
  qed
qed

lemma malformed_line:
  assumes "parse bad = None" and "bad \<noteq> js ''[DONE]''"
  shows "process_line parse (js ''data: '' @ bad) st = (Continue, warn st)"
  using assms by (simp add: process_line_data process_data_def)

lemma malformed_line_removed:
  assumes "parse bad = None" and "bad \<noteq> js ''[DONE]''" and "same_output s t"
  shows "fst (process_lines parse (pre @ (js ''data: '' @ bad) # post) s)
           = fst (process_lines parse (pre @ post) t)
       \<and> same_output (snd (process_lines parse (pre @ (js ''data: '' @ bad) # post) s))
           (snd (process_lines parse (pre @ post) t))"
proof -
  obtain f s' where ps: "process_lines parse pre s = (f, s')"
    by (cases "process_lines parse pre s")
  obtain g t' where pt: "process_lines parse pre t = (g, t')"
    by (cases "process_lines parse pre t")
  from same_output_process_lines [OF assms(3), of parse pre] ps pt
  have fg: "f = g" and st: "same_output s' t'" by simp_all
  show ?thesis
  proof (cases g)
    case Return
    with ps pt fg st show ?thesis by (simp add: process_lines_append)
  next
    case Continue
    from st have "same_output (warn s') t'"
      by (simp add: same_output_def warn_def)
    from same_output_process_lines [OF this, of parse post] Continue ps pt fg
    show ?thesis
      by (simp add: process_lines_append malformed_line [where parse = parse and bad = bad, OF assms(1,2)])
  qed
qed

text \<open>
  C6. A frame whose payload does not parse (and is not the sentinel) only logs a warning.
  In a sequence of frames, and in a chunk of a stream, leaving the malformed frame out
  changes neither the calls of the sink nor the way the decoding ends: the increments are
  exactly those of the other frames, in their order; the function returns normally and
  no failure notice is written on account of the malformed frame. The chunks of the stream
  are bytes: \<open>v\<close> is a chunk whose text holds the malformed frame as a line, \<open>v'\<close> a chunk
  with the same text without that line.
\<close>

theorem malformed_frame_skipped:
  assumes "parse bad = None" and "bad \<noteq> js ''[DONE]''"
    and "10 \<notin> set bad" and "a = [] \<or> last a = 10"
    and "TextDecoder_decode v = a @ js ''data: '' @ bad @ 10 # b"
    and "TextDecoder_decode v' = a @ b"
  shows "process_line parse (js ''data: '' @ bad) st = (Continue, warn st)
       \<and> fst (process_lines parse (pre @ (js ''data: '' @ bad) # post) st)
           = fst (process_lines parse (pre @ post) st)
       \<and> sink (snd (process_lines parse (pre @ (js ''data: '' @ bad) # post) st))
           = sink (snd (process_lines parse (pre @ post) st))
       \<and> fst (streamAIResponse parse token
             (Resolved (r\<lparr>ok := True, body := Some (before @ Chunk v # rest)\<rparr>)))
           = Inr ()
       \<and> sink (snd (streamAIResponse parse token
             (Resolved (r\<lparr>ok := True, body := Some (before @ Chunk v # rest)\<rparr>))))
           = sink (snd (streamAIResponse parse token
             (Resolved (r\<lparr>ok := True, body := Some (before @ Chunk v' # rest)\<rparr>))))"
proof -
  have e1: "chunk_lines (a @ js ''data: '' @ bad @ 10 # b)
      = chunk_lines a @ (js ''data: '' @ bad) # chunk_lines b"
    by (rule chunk_lines_data_line [OF assms(3,4)])
  have e2: "chunk_lines (a @ b) = chunk_lines a @ chunk_lines b"
    by (rule chunk_lines_append [OF assms(4)])
  have lines: "fst (process_lines parse (chunk_lines (TextDecoder_decode v)) s)
           = fst (process_lines parse (chunk_lines (TextDecoder_decode v')) t)
       \<and> same_output (snd (process_lines parse (chunk_lines (TextDecoder_decode v)) s))
           (snd (process_lines parse (chunk_lines (TextDecoder_decode v')) t))" if "same_output s t" for s t
    unfolding assms(5,6) e1 e2
    by (rule malformed_line_removed [where parse = parse and bad = bad, OF assms(1,2) that])
  from same_output_replace_chunk [of parse v v' initial initial token 0 before rest,
      OF lines same_output_refl]
  have loop: "fst (read_loop parse token 0 (before @ Chunk v # rest) initial)
      = fst (read_loop parse token 0 (before @ Chunk v' # rest) initial)"
    "sink (snd (read_loop parse token 0 (before @ Chunk v # rest) initial))
      = sink (snd (read_loop parse token 0 (before @ Chunk v' # rest) initial))"
    by (simp_all add: same_output_def)
  have stream: "sink (snd (streamAIResponse parse token
             (Resolved (r\<lparr>ok := True, body := Some (before @ Chunk v # rest)\<rparr>))))
           = sink (snd (streamAIResponse parse token
             (Resolved (r\<lparr>ok := True, body := Some (before @ Chunk v' # rest)\<rparr>))))"
    using loop by (simp add: sink_streamAIResponse)
  from malformed_line_removed [where parse = parse and bad = bad and pre = pre and post = post and s = st and t = st, OF assms(1,2) same_output_refl]
  have "fst (process_lines parse (pre @ (js ''data: '' @ bad) # post) st)
           = fst (process_lines parse (pre @ post) st)"
    and "sink (snd (process_lines parse (pre @ (js ''data: '' @ bad) # post) st))
           = sink (snd (process_lines parse (pre @ post) st))"
    by (simp_all add: same_output_def)
  with stream malformed_line [where parse = parse and bad = bad, OF assms(1,2)] show ?thesis
    by (simp add: streamAIResponse_returns)
qed

theorem malformed_frame_skipped_witness:
  "JSON_parse (js ''{not valid json'') = None
   \<and> streamAIResponse JSON_parse never_cancelled
     (Resolved \<lparr>ok = True, status = 200, statusText = js ''OK'',
        body = Some [Chunk (bytes ''data: {\"choices\":[{\"delta\":{\"content\":\"a\"}}]}\<newline>data: {not valid json\<newline>data: {\"choices\":[{\"delta\":{\"content\":\"b\"}}]}\<newline>'')]\<rparr>)
   = (Inr (), \<lparr>sink = [JString (js ''a''), JString (js ''b'')], warnings = 1, reads = 2, released = True\<rparr>)
   \<and> sink (snd (streamAIResponse JSON_parse never_cancelled
     (Resolved \<lparr>ok = True, status = 200, statusText = js ''OK'',
        body = Some [Chunk (bytes ''data: {\"choices\":[{\"delta\":{\"content\":\"a\"}}]}\<newline>data: {not valid json\<newline>data: {\"choices\":[{\"delta\":{\"content\":\"b\"}}]}\<newline>'')]\<rparr>)))
   = sink (snd (streamAIResponse JSON_parse never_cancelled
     (Resolved \<lparr>ok = True, status = 200, statusText = js ''OK'',
        body = Some [Chunk (bytes ''data: {\"choices\":[{\"delta\":{\"content\":\"a\"}}]}\<newline>data: {\"choices\":[{\"delta\":{\"content\":\"b\"}}]}\<newline>'')]\<rparr>)))"
proof -
  let ?bad = "js ''{not valid json''"
  let ?a = "js ''data: {\"choices\":[{\"delta\":{\"content\":\"a\"}}]}\<newline>''"
  let ?b = "js ''data: {\"choices\":[{\"delta\":{\"content\":\"b\"}}]}\<newline>''"
  let ?v = "bytes ''data: {\"choices\":[{\"delta\":{\"content\":\"a\"}}]}\<newline>data: {not valid json\<newline>data: {\"choices\":[{\"delta\":{\"content\":\"b\"}}]}\<newline>''"
  let ?v' = "bytes ''data: {\"choices\":[{\"delta\":{\"content\":\"a\"}}]}\<newline>data: {\"choices\":[{\"delta\":{\"content\":\"b\"}}]}\<newline>''"
  have h1: "JSON_parse ?bad = None"
    by (simp add: decoder_eval)
  have h2: "?bad \<noteq> js ''[DONE]''"
    by (simp add: js_def)
  have h3: "10 \<notin> set ?bad"
    by (simp add: js_def)
  have h4: "?a = [] \<or> last ?a = 10"
    by (simp add: js_def)
  have h5: "TextDecoder_decode ?v = ?a @ js ''data: '' @ ?bad @ 10 # ?b"
    by (simp add: decoder_eval)
  have h6: "TextDecoder_decode ?v' = ?a @ ?b"
    by (simp add: decoder_eval)
  have run: "streamAIResponse JSON_parse never_cancelled
     (Resolved \<lparr>ok = True, status = 200, statusText = js ''OK'', body = Some [Chunk ?v]\<rparr>)
   = (Inr (), \<lparr>sink = [JString (js ''a''), JString (js ''b'')], warnings = 1, reads = 2, released = True\<rparr>)"
    by (simp add: decoder_eval)
  from malformed_frame_skipped [where parse = JSON_parse and bad = ?bad and a = ?a
      and v = ?v and v' = ?v'
      and token = never_cancelled
      and r = "\<lparr>ok = True, status = 200, statusText = js ''OK'', body = None\<rparr>"
      and before = "[]" and b = ?b and rest = "[]", OF h1 h2 h3 h4 h5 h6]
  have "sink (snd (streamAIResponse JSON_parse never_cancelled
          (Resolved \<lparr>ok = True, status = 200, statusText = js ''OK'', body = Some [Chunk ?v]\<rparr>)))
      = sink (snd (streamAIResponse JSON_parse never_cancelled
          (Resolved \<lparr>ok = True, status = 200, statusText = js ''OK'', body = Some [Chunk ?v']\<rparr>)))"
    by simp
  then show ?thesis
    using h1 run by simp
qed

section \<open>Frames that are skipped\<close>

lemma lex_json_whitespace:
  assumes "\<forall>c \<in> set s. is_whitespace c"
  shows "lex_json s = None \<or> lex_json s = Some []"
  using assms
proof (induction s)
  case Nil
  then show ?case by simp
next
  case (Cons c s)
  then have ws: "is_whitespace c" and ih: "lex_json s = None \<or> lex_json s = Some []"
    by simp_all
  show ?case
  proof (cases "is_json_ws c")
    case True
    with ih show ?thesis by simp
  next
    case False
    from ws have "c \<noteq> 123" "c \<noteq> 125" "c \<noteq> 91" "c \<noteq> 93" "c \<noteq> 58" "c \<noteq> 44" "c \<noteq> 34"
      "c \<noteq> 45" "\<not> is_digit c" "c \<noteq> 116" "c \<noteq> 102" "c \<noteq> 110"
      by (auto simp: is_whitespace_def is_digit_def)
    with False have "lex_json (c # s) = None"
      by (simp add: startsWith_def js_def)
    then show ?thesis by simp
  qed
qed

lemma JSON_parse_whitespace:
  assumes "\<forall>c \<in> set s. is_whitespace c"
  shows "JSON_parse s = None"
  using lex_json_whitespace [OF assms] by (auto simp: JSON_parse_def)

lemma startsWith_trim:
  assumes "startsWith line (js ''data: '')" and "\<exists>c \<in> set (slice line 6). \<not> is_whitespace c"
  shows "startsWith (trim line) (js ''data: '')"
proof -
  from assms(1) have "take 6 line = js ''data: ''"
    by (simp add: startsWith_def length_data_prefix)
  then obtain rest where line: "line = js ''data: '' @ rest"
    by (metis append_take_drop_id)
  have "slice line 6 = rest"
    by (simp add: line slice_def length_data_prefix)
  with assms(2) obtain c where c: "c \<in> set (rev rest)" "\<not> is_whitespace c"
    by auto
  have "\<not> is_whitespace 100" by (simp add: is_whitespace_def)
  then have "dropWhile is_whitespace (js ''data: '' @ rest) = js ''data: '' @ rest"
    by (simp add: js_def)
  then have "trim (js ''data: '' @ rest)
      = rev (dropWhile is_whitespace (rev rest @ rev (js ''data: '')))"
    by (simp add: trim_def)
  also have "\<dots> = js ''data: '' @ rev (dropWhile is_whitespace (rev rest))"
    using c by (simp add: dropWhile_append1)
  finally show ?thesis by (simp add: line startsWith_append)
qed

lemma process_line_no_prefix:
  assumes "\<not> startsWith line (js ''data: '')"
  shows "process_line parse line st = (Continue, st)"
  using assms by (simp add: process_line_def)

lemma blank_no_prefix:
  assumes "trim blank = []"
  shows "\<not> startsWith blank (js ''data: '')"
proof
  assume "startsWith blank (js ''data: '')"
  then have "take 6 blank = js ''data: ''"
    by (simp add: startsWith_def length_data_prefix)
  then have "100 \<in> set (take 6 blank)" by (simp add: js_def)
  then have "100 \<in> set blank" by (rule in_set_takeD)
  moreover have "\<not> is_whitespace 100" by (simp add: is_whitespace_def)
  ultimately show False using assms by (auto simp: trim_eq_Nil_iff)
qed

lemma process_line_blank_payload:
  assumes "startsWith line (js ''data: '')" and "\<not> startsWith (trim line) (js ''data: '')"
  shows "process_line JSON_parse line st = (Continue, warn st)"
proof -
  from assms have ws: "\<forall>c \<in> set (slice line 6). is_whitespace c"
    using startsWith_trim by blast
  then have none: "JSON_parse (slice line 6) = None"
    by (rule JSON_parse_whitespace)
  have "\<not> is_whitespace 91" by (simp add: is_whitespace_def)
  moreover have "91 \<in> set (js ''[DONE]'')" by (simp add: js_def)
  ultimately have "slice line 6 \<noteq> js ''[DONE]''" using ws by metis
  with assms(1) none show ?thesis
    by (simp add: process_line_def process_data_def)
qed

lemma chunk_lines_plain_line:
  assumes "10 \<notin> set line" and "a = [] \<or> last a = 10"
  shows "chunk_lines (a @ line @ 10 # b)
       = chunk_lines a @ (if trim line = [] then [] else [line]) @ chunk_lines b"
proof -
  have one: "chunk_lines line = (if trim line = [] then [] else [line])"
    using assms(1) by (simp add: chunk_lines_def js_split_no_sep)
  have "chunk_lines (a @ line @ 10 # b) = chunk_lines a @ chunk_lines (line @ 10 # b)"
    using assms(2) by (rule chunk_lines_append)
  also have "chunk_lines (line @ 10 # b) = chunk_lines line @ chunk_lines b"
    by (rule chunk_lines_append_sep)
  finally show ?thesis by (simp add: one)
qed

text \<open>
  C8, as stated, fails: the program does not trim a frame before it tests the prefix. The
  trimmed text is used only to drop the lines that are empty after trimming; the prefix is
  tested on the line as received. So a data frame with a blank before the prefix is
  dropped, although its trimmed text begins with the prefix and decodes to an increment;
  and the line \<^verbatim>\<open>data:\<close> followed by two blanks, whose trimmed text lacks the prefix, is
  not skipped silently: its payload, a blank, is handed to the parser, which throws, and a
  warning is logged.
\<close>

theorem frame_filtering_counterexample:
  "startsWith (trim (js '' data: {\"choices\":[{\"delta\":{\"content\":\"a\"}}]}'')) (js ''data: '')
   \<and> process_line JSON_parse (trim (js '' data: {\"choices\":[{\"delta\":{\"content\":\"a\"}}]}'')) initial
     = (Continue, \<lparr>sink = [JString (js ''a'')], warnings = 0, reads = 0, released = False\<rparr>)
   \<and> streamAIResponse JSON_parse never_cancelled
       (Resolved \<lparr>ok = True, status = 200, statusText = js ''OK'',
          body = Some [Chunk (bytes '' data: {\"choices\":[{\"delta\":{\"content\":\"a\"}}]}\<newline>'')]\<rparr>)
     = (Inr (), \<lparr>sink = [], warnings = 0, reads = 2, released = True\<rparr>)
   \<and> \<not> startsWith (trim (js ''data:  '')) (js ''data: '')
   \<and> streamAIResponse JSON_parse never_cancelled
       (Resolved \<lparr>ok = True, status = 200, statusText = js ''OK'',
          body = Some [Chunk (bytes ''data:  \<newline>'')]\<rparr>)
     = (Inr (), \<lparr>sink = [], warnings = 1, reads = 2, released = True\<rparr>)"
  by (simp add: decoder_eval)

text \<open>
  C8, as the code has it. The lines of a chunk are those of its split at line feeds whose
  trimmed text is not empty, so a line that is empty after trimming is never a frame; and
  it would give nothing if it were decoded. The lines that are kept are not trimmed. A
  line that, as received, does not begin with \<^verbatim>\<open>data: \<close> changes nothing: no call of the
  sink, no warning, no return; in a sequence of frames it can be left out, and a chunk of
  any stream gives the same result with and without such a line. A line that begins with
  the prefix is a frame whatever its trimmed text: when only blanks follow the prefix, the
  trimmed text lacks the prefix, yet the payload is parsed, which fails, and a warning is
  logged; there is no increment and no return.
\<close>

theorem frame_filtering:
  assumes "trim blank = []" and "\<not> startsWith line (js ''data: '')"
    and "10 \<notin> set line" and "a = [] \<or> last a = 10"
    and "TextDecoder_decode v = a @ line @ 10 # b"
    and "TextDecoder_decode v' = a @ b"
    and "startsWith other (js ''data: '')" and "\<not> startsWith (trim other) (js ''data: '')"
  shows "blank \<notin> set (chunk_lines chunk)
       \<and> process_line parse blank st = (Continue, st)
       \<and> process_line parse line st = (Continue, st)
       \<and> process_lines parse (pre @ line # post) st = process_lines parse (pre @ post) st
       \<and> streamAIResponse parse token (Resolved (r\<lparr>ok := True, body := Some (before @ Chunk v # rest)\<rparr>))
           = streamAIResponse parse token (Resolved (r\<lparr>ok := True, body := Some (before @ Chunk v' # rest)\<rparr>))
       \<and> process_line JSON_parse other st = (Continue, warn st)"
proof -
  have blank: "blank \<notin> set (chunk_lines chunk)"
    using assms(1) by (simp add: chunk_lines_def)
  have skipped: "process_line parse blank st = (Continue, st)"
    using blank_no_prefix [OF assms(1)] by (rule process_line_no_prefix)
  have one: "process_line parse line s = (Continue, s)" for s
    using assms(2) by (rule process_line_no_prefix)
  have without: "process_lines parse (xs @ line # ys) s = process_lines parse (xs @ ys) s" for xs ys s
    by (simp add: process_lines_append one split: prod.splits flow.splits)
  have e1: "chunk_lines (a @ line @ 10 # b)
      = chunk_lines a @ (if trim line = [] then [] else [line]) @ chunk_lines b"
    by (rule chunk_lines_plain_line [OF assms(3,4)])
  have e2: "chunk_lines (a @ b) = chunk_lines a @ chunk_lines b"
    by (rule chunk_lines_append [OF assms(4)])
  have "process_lines parse (chunk_lines (TextDecoder_decode v)) s
      = process_lines parse (chunk_lines (TextDecoder_decode v')) s" for s
    unfolding assms(5,6) e1 e2 by (simp add: without)
  then have stream: "streamAIResponse parse token (Resolved (r\<lparr>ok := True, body := Some (before @ Chunk v # rest)\<rparr>))
           = streamAIResponse parse token (Resolved (r\<lparr>ok := True, body := Some (before @ Chunk v' # rest)\<rparr>))"
    by (rule streamAIResponse_replace_chunk)
  have "process_line JSON_parse other st = (Continue, warn st)"
    using assms(7,8) by (rule process_line_blank_payload)
  with blank skipped one without stream show ?thesis by simp
qed

theorem frame_filtering_witness:
  "chunk_lines (js ''\<newline> \<newline>: keep-alive\<newline>event: ping\<newline>data: {\"choices\":[{\"delta\":{\"content\":\"a\"}}]}\<newline>'')
     = [js '': keep-alive'', js ''event: ping'', js ''data: {\"choices\":[{\"delta\":{\"content\":\"a\"}}]}'']
   \<and> process_line JSON_parse (js '' '') initial = (Continue, initial)
   \<and> process_line JSON_parse (js ''event: ping'') initial = (Continue, initial)
   \<and> streamAIResponse JSON_parse never_cancelled
       (Resolved \<lparr>ok = True, status = 200, statusText = js ''OK'',
          body = Some [Chunk (bytes ''\<newline> \<newline>: keep-alive\<newline>event: ping\<newline>data: {\"choices\":[{\"delta\":{\"content\":\"a\"}}]}\<newline>''),
                       Chunk (bytes ''data: {\"choices\":[{\"delta\":{\"content\":\"b\"}}]}\<newline>'')]\<rparr>)
     = streamAIResponse JSON_parse never_cancelled
       (Resolved \<lparr>ok = True, status = 200, statusText = js ''OK'',
          body = Some [Chunk (bytes ''\<newline> \<newline>: keep-alive\<newline>data: {\"choices\":[{\"delta\":{\"content\":\"a\"}}]}\<newline>''),
                       Chunk (bytes ''data: {\"choices\":[{\"delta\":{\"content\":\"b\"}}]}\<newline>'')]\<rparr>)
   \<and> streamAIResponse JSON_parse never_cancelled
       (Resolved \<lparr>ok = True, status = 200, statusText = js ''OK'',
          body = Some [Chunk (bytes ''\<newline> \<newline>: keep-alive\<newline>event: ping\<newline>data: {\"choices\":[{\"delta\":{\"content\":\"a\"}}]}\<newline>''),
                       Chunk (bytes ''data: {\"choices\":[{\"delta\":{\"content\":\"b\"}}]}\<newline>'')]\<rparr>)
     = (Inr (), \<lparr>sink = [JString (js ''a''), JString (js ''b'')], warnings = 0, reads = 3, released = True\<rparr>)
   \<and> process_line JSON_parse (js ''data:  '') initial
     = (Continue, \<lparr>sink = [], warnings = 1, reads = 0, released = False\<rparr>)"
proof -
  let ?a = "js ''\<newline> \<newline>: keep-alive\<newline>''"
  let ?b = "js ''data: {\"choices\":[{\"delta\":{\"content\":\"a\"}}]}\<newline>''"
  let ?v = "bytes ''\<newline> \<newline>: keep-alive\<newline>event: ping\<newline>data: {\"choices\":[{\"delta\":{\"content\":\"a\"}}]}\<newline>''"
  let ?v' = "bytes ''\<newline> \<newline>: keep-alive\<newline>data: {\"choices\":[{\"delta\":{\"content\":\"a\"}}]}\<newline>''"
  let ?next = "bytes ''data: {\"choices\":[{\"delta\":{\"content\":\"b\"}}]}\<newline>''"
  have h1: "trim (js '' '') = []"
    by (simp add: decoder_eval)
  have h2: "\<not> startsWith (js ''event: ping'') (js ''data: '')"
    by (simp add: decoder_eval)
  have h3: "10 \<notin> set (js ''event: ping'')"
    by (simp add: js_def)
  have h4: "?a = [] \<or> last ?a = 10"
    by (simp add: js_def)
  have h5: "TextDecoder_decode ?v = ?a @ js ''event: ping'' @ 10 # ?b"
    by (simp add: decoder_eval)
  have h6: "TextDecoder_decode ?v' = ?a @ ?b"
    by (simp add: decoder_eval)
  have h7: "startsWith (js ''data:  '') (js ''data: '')"
    by (simp add: decoder_eval)
  have h8: "\<not> startsWith (trim (js ''data:  '')) (js ''data: '')"
    by (simp add: decoder_eval)
  have lines: "chunk_lines (js ''\<newline> \<newline>: keep-alive\<newline>event: ping\<newline>data: {\"choices\":[{\"delta\":{\"content\":\"a\"}}]}\<newline>'')
     = [js '': keep-alive'', js ''event: ping'', js ''data: {\"choices\":[{\"delta\":{\"content\":\"a\"}}]}'']"
    by (simp add: decoder_eval)
  have run: "streamAIResponse JSON_parse never_cancelled
       (Resolved \<lparr>ok = True, status = 200, statusText = js ''OK'', body = Some [Chunk ?v, Chunk ?next]\<rparr>)
     = (Inr (), \<lparr>sink = [JString (js ''a''), JString (js ''b'')], warnings = 0, reads = 3, released = True\<rparr>)"
    by (simp add: decoder_eval)
  from frame_filtering [where parse = JSON_parse and st = initial
      and blank = "js '' ''" and line = "js ''event: ping''" and other = "js ''data:  ''"
      and a = ?a and b = ?b and v = ?v and v' = ?v'
      and token = never_cancelled
      and r = "\<lparr>ok = True, status = 200, statusText = js ''OK'', body = None\<rparr>"
      and before = "[]" and rest = "[Chunk ?next]",
      OF h1 h2 h3 h4 h5 h6 h7 h8]
  have "process_line JSON_parse (js '' '') initial = (Continue, initial)"
    and "process_line JSON_parse (js ''event: ping'') initial = (Continue, initial)"
    and "streamAIResponse JSON_parse never_cancelled
       (Resolved \<lparr>ok = True, status = 200, statusText = js ''OK'', body = Some [Chunk ?v, Chunk ?next]\<rparr>)
     = streamAIResponse JSON_parse never_cancelled
       (Resolved \<lparr>ok = True, status = 200, statusText = js ''OK'', body = Some [Chunk ?v', Chunk ?next]\<rparr>)"
    and "process_line JSON_parse (js ''data:  '') initial = (Continue, warn initial)"
    by simp_all
  then show ?thesis
    using lines run by (simp add: warn_def initial_def)
qed

end
